theory Spec2Isabelle
  imports Complex_Main
begin

section \<open>Numbers\<close>

text \<open>
  A JavaScript number is modelled as a finite real, one of the two infinities or \<open>NaN\<close>.
  Rounding within the range of a double, underflow and the sign of zero are outside the
  model; overflow is inside it. An operation on finite numbers yields the exact real
  result when that result lies in the range of a double and the infinity of its sign when
  it does not: a real of magnitude \<open>2^1024 - 2^970\<close> or more (half-way between the largest
  double and \<open>2^1024\<close>) rounds to an infinity. The operations on the infinities and \<open>NaN\<close>
  are those of the language: \<open>NaN\<close> comes from \<open>0 / 0\<close>, a difference of equal infinities, a
  product of zero and an infinity, a quotient of infinities, the square root of a negative
  number and arithmetic on \<open>undefined\<close> (an array slot that was never written), which
  JavaScript coerces to \<open>NaN\<close>.
\<close>

datatype num = Num real | PInf | NInf | NaN

definition overflow_limit :: real where
  "overflow_limit = 2 ^ 1024 - 2 ^ 970"

definition overflow :: "real \<Rightarrow> num" where
  "overflow r =
     (if overflow_limit \<le> r then PInf else if r \<le> - overflow_limit then NInf else Num r)"

text \<open>The infinity that has the sign of \<open>s\<close>; \<open>NaN\<close> for zero.\<close>

definition inf_of_sign :: "real \<Rightarrow> num" where
  "inf_of_sign s = (if 0 < s then PInf else if s < 0 then NInf else NaN)"

fun num_add :: "num \<Rightarrow> num \<Rightarrow> num" where
  "num_add (Num a) (Num b) = overflow (a + b)"
| "num_add (Num a) PInf = PInf"
| "num_add (Num a) NInf = NInf"
| "num_add PInf (Num b) = PInf"
| "num_add NInf (Num b) = NInf"
| "num_add PInf PInf = PInf"
| "num_add NInf NInf = NInf"
| "num_add _ _ = NaN"

text \<open>The difference of two finite numbers of the same sign is no larger in magnitude
  than the larger of them, so it cannot overflow.\<close>

fun num_sub :: "num \<Rightarrow> num \<Rightarrow> num" where
  "num_sub (Num a) (Num b) = (if (0 \<le> a) = (0 \<le> b) then Num (a - b) else overflow (a - b))"
| "num_sub (Num a) PInf = NInf"
| "num_sub (Num a) NInf = PInf"
| "num_sub PInf (Num b) = PInf"
| "num_sub NInf (Num b) = NInf"
| "num_sub PInf NInf = PInf"
| "num_sub NInf PInf = NInf"
| "num_sub _ _ = NaN"

fun num_mul :: "num \<Rightarrow> num \<Rightarrow> num" where
  "num_mul (Num a) (Num b) = overflow (a * b)"
| "num_mul (Num a) PInf = inf_of_sign a"
| "num_mul (Num a) NInf = inf_of_sign (- a)"
| "num_mul PInf (Num b) = inf_of_sign b"
| "num_mul NInf (Num b) = inf_of_sign (- b)"
| "num_mul PInf PInf = PInf"
| "num_mul PInf NInf = NInf"
| "num_mul NInf PInf = NInf"
| "num_mul NInf NInf = PInf"
| "num_mul _ _ = NaN"

text \<open>A quotient by a finite number of magnitude 1 or more is no larger in magnitude than
  the dividend, so it cannot overflow. A non-zero number divided by zero is the infinity
  of its sign.\<close>

fun num_div :: "num \<Rightarrow> num \<Rightarrow> num" where
  "num_div (Num a) (Num b) =
     (if b = 0 then inf_of_sign a
      else if 1 \<le> \<bar>b\<bar> then Num (a / b) else overflow (a / b))"
| "num_div (Num a) PInf = Num 0"
| "num_div (Num a) NInf = Num 0"
| "num_div PInf (Num b) = (if 0 \<le> b then PInf else NInf)"
| "num_div NInf (Num b) = (if 0 \<le> b then NInf else PInf)"
| "num_div _ _ = NaN"

fun num_sqrt :: "num \<Rightarrow> num" where
  "num_sqrt (Num a) = (if a < 0 then NaN else Num (sqrt a))"
| "num_sqrt PInf = PInf"
| "num_sqrt NInf = NaN"
| "num_sqrt NaN = NaN"

text \<open>\<open>Math.max\<close>\<close>

fun num_max :: "num \<Rightarrow> num \<Rightarrow> num" where
  "num_max (Num a) (Num b) = Num (max a b)"
| "num_max NaN _ = NaN"
| "num_max _ NaN = NaN"
| "num_max PInf _ = PInf"
| "num_max _ PInf = PInf"
| "num_max NInf b = b"
| "num_max a NInf = a"

text \<open>Comparisons with \<open>NaN\<close> are false.\<close>

fun num_lt :: "num \<Rightarrow> num \<Rightarrow> bool" where
  "num_lt (Num a) (Num b) = (a < b)"
| "num_lt (Num a) PInf = True"
| "num_lt NInf (Num b) = True"
| "num_lt NInf PInf = True"
| "num_lt _ _ = False"

text \<open>A count (the size of a set, the length of an array) is an integer far below the
  range of a double.\<close>

definition of_count :: "nat \<Rightarrow> num" where
  "of_count c = Num (real c)"

section \<open>Strings, sets and insertion-ordered maps\<close>

text \<open>
  A string is a list of code units; the model covers the code units below 256 (Latin-1),
  one \<open>char\<close> each. \<open>is_space\<close> is the class \<open>\s\<close> of a JavaScript regular expression on
  that range (tab, line feed, vertical tab, form feed, carriage return, space, no-break
  space) and \<open>toLowerCase\<close> is \<open>String.prototype.toLowerCase\<close> on it.
\<close>

definition is_space :: "char \<Rightarrow> bool" where
  "is_space c = (of_char c \<in> {9, 10, 11, 12, 13, 32, 160 :: nat})"

definition lower_char :: "char \<Rightarrow> char" where
  "lower_char c =
     (let u = (of_char c :: nat)
      in if (65 \<le> u \<and> u \<le> 90) \<or> (192 \<le> u \<and> u \<le> 222 \<and> u \<noteq> 215)
         then char_of (u + 32) else c)"

definition toLowerCase :: "string \<Rightarrow> string" where
  "toLowerCase s = map lower_char s"

text \<open>
  \<open>s.split(/\s+/)\<close>: the pieces between the maximal runs of white space, with an empty
  piece where the string starts or ends with white space (and \<open>[""]\<close> for the empty
  string).
\<close>

function split_ws :: "string \<Rightarrow> string list" where
  "split_ws s =
     (case dropWhile (\<lambda>c. \<not> is_space c) s of
        [] \<Rightarrow> [takeWhile (\<lambda>c. \<not> is_space c) s]
      | sep # rest \<Rightarrow> takeWhile (\<lambda>c. \<not> is_space c) s # split_ws (dropWhile is_space rest))"
  by pat_completeness auto

lemma split_ws_decreases:
  assumes "dropWhile (\<lambda>c. \<not> is_space c) s = sep # rest"
  shows "length (dropWhile is_space rest) < length s"
proof -
  have "length (dropWhile is_space rest) \<le> length rest"
    by (rule length_dropWhile_le)
  also have "\<dots> < length (dropWhile (\<lambda>c. \<not> is_space c) s)"
    using assms by simp
  also have "\<dots> \<le> length s"
    by (rule length_dropWhile_le)
  finally show ?thesis .
qed

termination split_ws
  by (relation "measure length") (simp_all add: split_ws_decreases)

declare split_ws.simps [simp del]

text \<open>\<open>t.split(/\s+/).filter(w => w.length > 0)\<close>\<close>

definition tokens :: "string \<Rightarrow> string list" where
  "tokens t = filter (\<lambda>w. length w > 0) (split_ws t)"

text \<open>
  \<open>new Set(xs)\<close>: a JavaScript \<open>Set\<close> keeps its elements in insertion order, each once;
  it is the list of first occurrences. \<open>size\<close> is its length, \<open>has\<close> is membership.
\<close>

definition set_add :: "'a \<Rightarrow> 'a list \<Rightarrow> 'a list" where
  "set_add x acc = (if x \<in> set acc then acc else acc @ [x])"

definition new_Set :: "'a list \<Rightarrow> 'a list" where
  "new_Set xs = fold set_add xs []"

section \<open>Metric library (knn.ts)\<close>

definition defaultDistance :: "string \<Rightarrow> string \<Rightarrow> num" where
  "defaultDistance t1 t2 =
     (let words1 = new_Set (tokens t1);
          words2 = new_Set (tokens t2);
          union = new_Set (words1 @ words2);
          intersection = new_Set (filter (\<lambda>x. x \<in> set words2) words1)
      in if length union = 0 then Num 1
         else num_div (num_sub (of_count (length union)) (of_count (length intersection)))
                      (of_count (length union)))"

definition jaccardDistance :: "string \<Rightarrow> string \<Rightarrow> num" where
  "jaccardDistance t1 t2 =
     (let words1 = new_Set (tokens t1);
          words2 = new_Set (tokens t2);
          intersection = new_Set (filter (\<lambda>x. x \<in> set words2) words1);
          union = new_Set (words1 @ words2)
      in if length union = 0 then Num 1
         else num_sub (Num 1) (num_div (of_count (length intersection)) (of_count (length union))))"

text \<open>
  \<open>levenshteinDistance\<close>. The table \<open>matrix\<close> is an array of arrays that the function
  grows by assignment, so it is modelled as a sparse array: \<open>m i j = None\<close> is a slot that
  was never written (\<open>undefined\<close>, which arithmetic turns into \<open>NaN\<close>, also \<open>None\<close>). The
  first loop creates the rows \<open>0..len1\<close>, and no other row is ever touched.
\<close>

type_synonym table = "nat \<Rightarrow> nat \<Rightarrow> nat option"

definition cell_succ :: "nat option \<Rightarrow> nat option" where
  "cell_succ c = map_option Suc c"

fun cell_min :: "nat option \<Rightarrow> nat option \<Rightarrow> nat option \<Rightarrow> nat option" where
  "cell_min (Some a) (Some b) (Some c) = Some (min a (min b c))"
| "cell_min _ _ _ = None"

definition lev_init_rows :: "nat \<Rightarrow> table" where
  "lev_init_rows len1 = fold (\<lambda>i m. m(i := (\<lambda>j. None)(0 := Some i))) [0..<len1 + 1] (\<lambda>i j. None)"

definition lev_init_row0 :: "nat \<Rightarrow> table \<Rightarrow> table" where
  "lev_init_row0 len2 m0 = fold (\<lambda>j m. m(0 := (m 0)(j := Some j))) [0..<len2 + 1] m0"

definition lev_cell :: "string \<Rightarrow> string \<Rightarrow> nat \<Rightarrow> nat \<Rightarrow> table \<Rightarrow> table" where
  "lev_cell s1 s2 i j m =
     (if s1 ! (i - 1) = s2 ! (j - 1)
      then m(i := (m i)(j := m (i - 1) (j - 1)))
      else m(i := (m i)(j := cell_min (cell_succ (m (i - 1) (j - 1)))
                                       (cell_succ (m i (j - 1)))
                                       (cell_succ (m (i - 1) j)))))"

definition lev_fill :: "string \<Rightarrow> string \<Rightarrow> table \<Rightarrow> table" where
  "lev_fill s1 s2 m0 =
     fold (\<lambda>i m. fold (\<lambda>j m'. lev_cell s1 s2 i j m') [1..<length s2 + 1] m)
          [1..<length s1 + 1] m0"

definition levenshteinDistance :: "string \<Rightarrow> string \<Rightarrow> num" where
  "levenshteinDistance s1 s2 =
     (let len1 = length s1;
          len2 = length s2;
          matrix = lev_fill s1 s2 (lev_init_row0 len2 (lev_init_rows len1));
          maxLen = max len1 len2
      in if maxLen = 0 then Num 0
         else (case matrix len1 len2 of
                 None \<Rightarrow> NaN
               | Some d \<Rightarrow> num_div (of_count d) (of_count maxLen)))"

definition cosineDistance :: "string \<Rightarrow> string \<Rightarrow> num" where
  "cosineDistance t1 t2 =
     (let words1 = tokens t1;
          words2 = tokens t2;
          allWords = new_Set (words1 @ words2);
          vec1 = map (\<lambda>w. length (filter (\<lambda>x. x = w) words1)) allWords;
          vec2 = map (\<lambda>w. length (filter (\<lambda>x. x = w) words2)) allWords;
          dotProduct = fold (\<lambda>(i, v) sum. sum + v * vec2 ! i) (enumerate 0 vec1) 0;
          mag1 = sqrt (real (fold (\<lambda>v sum. sum + v * v) vec1 0));
          mag2 = sqrt (real (fold (\<lambda>v sum. sum + v * v) vec2 0))
      in if mag1 = 0 \<or> mag2 = 0 then Num 1
         else num_sub (Num 1) (num_div (of_count dotProduct) (Num (mag1 * mag2))))"

definition getDistanceFunction :: "string \<Rightarrow> string \<Rightarrow> string \<Rightarrow> num" where
  "getDistanceFunction type =
     (if type = ''jaccard'' then jaccardDistance
      else if type = ''levenshtein'' then levenshteinDistance
      else if type = ''cosine'' then cosineDistance
      else defaultDistance)"

section \<open>Clustering metric (clustering.ts)\<close>

definition tweetDistance :: "string \<Rightarrow> string \<Rightarrow> num" where
  "tweetDistance tweet1 tweet2 =
     (let words1 = new_Set (tokens (toLowerCase tweet1));
          words2 = new_Set (tokens (toLowerCase tweet2));
          commonWords = new_Set (filter (\<lambda>w. w \<in> set words2) words1);
          totalWords = length words1 + length words2
      in if totalWords = 0 then Num 1
         else num_div (num_sub (of_count totalWords) (of_count (length commonWords)))
                      (of_count totalWords))"

section \<open>Arrays of numbers on a heap\<close>

text \<open>
  The rows of a distance matrix are arrays that the engine updates in place, and the
  caller's rows are objects of the same kind, so rows live on a heap: an address is a
  position in the heap, allocation appends, and a matrix (the outer array, which no
  function here ever writes to) is the list of its rows' addresses. A slot beyond the end
  of a row reads as \<open>undefined\<close>, which every use here coerces to \<open>NaN\<close>; a write beyond
  the end extends the row, leaving holes.
\<close>

type_synonym addr = nat
type_synonym heap = "num list list"

definition arr_get :: "num list \<Rightarrow> nat \<Rightarrow> num" where
  "arr_get row j = (if j < length row then row ! j else NaN)"

definition arr_set :: "num list \<Rightarrow> nat \<Rightarrow> num \<Rightarrow> num list" where
  "arr_set row j v =
     (if j < length row then row[j := v]
      else row @ replicate (j - length row) NaN @ [v])"

text \<open>\<open>m[i][j]\<close> and \<open>m[i][j] = v\<close> for a matrix \<open>m\<close>. The row index is always below the
  number of rows (lemma \<open>closest_pair_bounds\<close> for the engine), so \<open>m[i]\<close> is a row.\<close>

definition rd :: "heap \<Rightarrow> addr list \<Rightarrow> nat \<Rightarrow> nat \<Rightarrow> num" where
  "rd h m i j = arr_get (h ! (m ! i)) j"

definition wr :: "heap \<Rightarrow> addr list \<Rightarrow> nat \<Rightarrow> nat \<Rightarrow> num \<Rightarrow> heap" where
  "wr h m i j v = h[m ! i := arr_set (h ! (m ! i)) j v]"

section \<open>Distance matrix (clustering.ts)\<close>

record Tweet =
  tweet_id :: nat
  tweet_text :: string
  label :: "string option"
  predictedLabel :: "string option"
  cleaned :: "string option"

text \<open>The index pairs \<open>(i, j)\<close> of \<open>for (i = 0; i < n; i++) for (j = i + 1; j < n; j++)\<close>,
  in the order the loops visit them.\<close>

definition index_pairs :: "nat \<Rightarrow> (nat \<times> nat) list" where
  "index_pairs n = concat (map (\<lambda>i. map (\<lambda>j. (i, j)) [i + 1..<n]) [0..<n])"

text \<open>\<open>Array(n).fill(0).map(() => Array(n).fill(0))\<close>\<close>

definition zero_matrix :: "heap \<Rightarrow> nat \<Rightarrow> heap \<times> addr list" where
  "zero_matrix h n = (h @ replicate n (replicate n (Num 0)), [length h..<length h + n])"

text \<open>The loops of \<open>createDistanceMatrix\<close>. \<open>cleaned\<close> is an optional field; on a tweet
  without it \<open>tweetDistance\<close> calls \<open>toLowerCase\<close> on \<open>undefined\<close> and throws, which is
  the result \<open>None\<close>.\<close>

fun fill_distances :: "Tweet list \<Rightarrow> addr list \<Rightarrow> (nat \<times> nat) list \<Rightarrow> heap \<Rightarrow> heap option" where
  "fill_distances tweets matrix [] h = Some h"
| "fill_distances tweets matrix ((i, j) # ps) h =
     (case (cleaned (tweets ! i), cleaned (tweets ! j)) of
        (Some ti, Some tj) \<Rightarrow>
          (let dist = tweetDistance ti tj
           in fill_distances tweets matrix ps (wr (wr h matrix i j dist) matrix j i dist))
      | _ \<Rightarrow> None)"

definition createDistanceMatrix :: "heap \<Rightarrow> Tweet list \<Rightarrow> (heap \<times> addr list) option" where
  "createDistanceMatrix h tweets =
     (let n = length tweets;
          (h1, matrix) = zero_matrix h n
      in case fill_distances tweets matrix (index_pairs n) h1 of
           None \<Rightarrow> None
         | Some h2 \<Rightarrow> Some (h2, matrix))"

section \<open>Hierarchical clustering (clustering.ts)\<close>

record ClusterNode =
  left :: "nat option"
  right :: "nat option"
  distance :: num
  count :: nat

datatype LinkageMethod = Average | Complete | Ward

record cstate =
  active :: "nat list"
  clusterSizes :: "nat list"
  mem :: heap
  clusters :: "ClusterNode list"

text \<open>
  The search for the closest pair. The three variables \<open>minDist\<close>, \<open>minI\<close>, \<open>minJ\<close> start
  as \<open>Infinity\<close>, \<open>-1\<close>, \<open>-1\<close> and are only assigned together, so they are one optional
  triple: \<open>None\<close> is the initial state, in which \<open>minDist\<close> is \<open>Infinity\<close>. The test
  \<open>distances[ci][cj] < minDist\<close> is false for \<open>NaN\<close> and for \<open>Infinity\<close>.
\<close>

definition scan_step ::
  "heap \<Rightarrow> addr list \<Rightarrow> nat list \<Rightarrow> nat \<times> nat \<Rightarrow> (num \<times> nat \<times> nat) option
     \<Rightarrow> (num \<times> nat \<times> nat) option" where
  "scan_step h distances activeArray p best =
     (let ci = activeArray ! fst p;
          cj = activeArray ! snd p;
          minDist = (case best of None \<Rightarrow> PInf | Some (minDist, minI, minJ) \<Rightarrow> minDist)
      in if num_lt (rd h distances ci cj) minDist then Some (rd h distances ci cj, ci, cj)
         else best)"

definition closest_pair :: "heap \<Rightarrow> addr list \<Rightarrow> nat list \<Rightarrow> (num \<times> nat \<times> nat) option" where
  "closest_pair h distances activeArray =
     fold (scan_step h distances activeArray) (index_pairs (length activeArray)) None"

text \<open>\<open>newDist\<close> for one remaining cluster \<open>k\<close>, computed from the heap as it is at that
  point of the loop.\<close>

definition newDist ::
  "LinkageMethod \<Rightarrow> heap \<Rightarrow> addr list \<Rightarrow> nat list \<Rightarrow> nat \<Rightarrow> nat \<Rightarrow> nat \<Rightarrow> num" where
  "newDist method h distances sizes minI minJ k =
     (case method of
        Average \<Rightarrow>
          num_div (num_add (num_mul (rd h distances minI k) (of_count (sizes ! minI)))
                           (num_mul (rd h distances minJ k) (of_count (sizes ! minJ))))
                  (of_count (sizes ! minI + sizes ! minJ))
      | Complete \<Rightarrow> num_max (rd h distances minI k) (rd h distances minJ k)
      | Ward \<Rightarrow>
          num_sqrt
            (num_div
               (num_sub
                  (num_add
                     (num_mul (num_mul (of_count (sizes ! minI + sizes ! k)) (rd h distances minI k))
                              (rd h distances minI k))
                     (num_mul (num_mul (of_count (sizes ! minJ + sizes ! k)) (rd h distances minJ k))
                              (rd h distances minJ k)))
                  (num_mul (num_mul (of_count (sizes ! k)) (rd h distances minI minJ))
                           (rd h distances minI minJ)))
               (of_count (sizes ! minI + sizes ! minJ + sizes ! k))))"

definition update_k ::
  "LinkageMethod \<Rightarrow> addr list \<Rightarrow> nat list \<Rightarrow> nat \<Rightarrow> nat \<Rightarrow> nat \<Rightarrow> heap \<Rightarrow> heap" where
  "update_k method distances sizes minI minJ k h =
     (if k = minI then h
      else let d = newDist method h distances sizes minI minJ k
           in wr (wr h distances minI k d) distances k minI d)"

text \<open>The body of the loop after the search. \<open>newIndex\<close> is computed as in the source,
  which never uses it.\<close>

definition merge_clusters ::
  "nat \<Rightarrow> addr list \<Rightarrow> LinkageMethod \<Rightarrow> cstate \<Rightarrow> num \<times> nat \<times> nat \<Rightarrow> cstate" where
  "merge_clusters n distances method st best =
     (case best of (minDist, minI, minJ) \<Rightarrow>
        let newCluster = \<lparr>left = Some minI, right = Some minJ, distance = minDist,
                          count = clusterSizes st ! minI + clusterSizes st ! minJ\<rparr>;
            clusters' = clusters st @ [newCluster];
            newIndex = n + length clusters' - 1;
            active' = removeAll minJ (active st);
            mem' = fold (update_k method distances (clusterSizes st) minI minJ) active' (mem st);
            sizes' = (clusterSizes st)[minI := clusterSizes st ! minI + clusterSizes st ! minJ]
        in \<lparr>active = active', clusterSizes = sizes', mem = mem', clusters = clusters'\<rparr>)"

function cluster_loop :: "nat \<Rightarrow> addr list \<Rightarrow> LinkageMethod \<Rightarrow> cstate \<Rightarrow> cstate" where
  "cluster_loop n distances method st =
     (if length (active st) > 1
      then (case closest_pair (mem st) distances (active st) of
              None \<Rightarrow> st
            | Some best \<Rightarrow> cluster_loop n distances method (merge_clusters n distances method st best))
      else st)"
  by pat_completeness auto

text \<open>The loop ends: each pass that does not leave it removes \<open>minJ\<close>, a member of the
  active set, from the active set.\<close>

lemma set_index_pairs: "set (index_pairs n) = {(i, j). i < j \<and> j < n}"
proof -
  have "(a, b) \<in> set (index_pairs n)" if "a < b" "b < n" for a b
    unfolding index_pairs_def using that
    by (auto intro!: bexI [of _ a])
  moreover have "i < j \<and> j < n" if "(i, j) \<in> set (index_pairs n)" for i j
    using that by (auto simp: index_pairs_def)
  ultimately show ?thesis by auto
qed

lemma scan_step_cases:
  "scan_step h ds act p best = best \<or>
   (\<exists>d. scan_step h ds act p best = Some (d, act ! fst p, act ! snd p))"
  by (auto simp: scan_step_def Let_def)

lemma fold_scan_in:
  assumes "fold (scan_step h ds act) ps best = Some (d, i, j)"
  shows "best = Some (d, i, j) \<or> (\<exists>p\<in>set ps. i = act ! fst p \<and> j = act ! snd p)"
  using assms
proof (induction ps arbitrary: best)
  case Nil
  then show ?case by simp
next
  case (Cons p ps)
  from Cons.IH [of "scan_step h ds act p best"] Cons.prems
  have "scan_step h ds act p best = Some (d, i, j) \<or> (\<exists>p\<in>set ps. i = act ! fst p \<and> j = act ! snd p)"
    by simp
  then show ?case
    using scan_step_cases [of h ds act p best] by auto
qed

lemma closest_pair_in:
  assumes "closest_pair h ds act = Some (d, i, j)"
  shows "\<exists>a b. a < b \<and> b < length act \<and> i = act ! a \<and> j = act ! b"
  using fold_scan_in [OF assms [unfolded closest_pair_def]]
  by (auto simp: set_index_pairs)

lemma closest_pair_mem:
  assumes "closest_pair h ds act = Some (d, i, j)"
  shows "i \<in> set act" and "j \<in> set act"
  using closest_pair_in [OF assms] by auto

lemma removeAll_shorter: "x \<in> set xs \<Longrightarrow> length (removeAll x xs) < length xs"
  by (induction xs) (auto simp: less_Suc_eq_le length_removeAll_less_eq)

termination cluster_loop
proof (relation "measure (\<lambda>(n, ds, m, st). length (active st))")
  show "wf (measure (\<lambda>(n :: nat, ds :: addr list, m :: LinkageMethod, st :: cstate). length (active st)))" by simp
next
  fix n :: nat and ds :: "addr list" and m :: LinkageMethod and st :: cstate and best
  assume "closest_pair (mem st) ds (active st) = Some best"
  then have "snd (snd best) \<in> set (active st)"
    using closest_pair_mem(2) [of "mem st" ds "active st" "fst best" "fst (snd best)" "snd (snd best)"]
    by simp
  then show "((n, ds, m, merge_clusters n ds m st best), (n, ds, m, st))
        \<in> measure (\<lambda>(n, ds, m, st). length (active st))"
    by (simp add: merge_clusters_def case_prod_unfold Let_def removeAll_shorter)
qed

declare cluster_loop.simps [simp del]

text \<open>\<open>distanceMatrix.map(row => [...row])\<close>: a new row for each row of the argument.\<close>

definition copy_rows :: "heap \<Rightarrow> addr list \<Rightarrow> heap \<times> addr list" where
  "copy_rows h m = (h @ map (\<lambda>a. h ! a) m, [length h..<length h + length m])"


text \<open>The state when the loop is entered, and the state when it is left.\<close>

definition initial_state :: "nat \<Rightarrow> heap \<Rightarrow> cstate" where
  "initial_state n h1 = \<lparr>active = [0..<n], clusterSizes = replicate n 1, mem = h1, clusters = []\<rparr>"

definition final_state :: "heap \<Rightarrow> addr list \<Rightarrow> LinkageMethod \<Rightarrow> cstate" where
  "final_state h distanceMatrix method =
     (let n = length distanceMatrix;
          (h1, distances) = copy_rows h distanceMatrix
      in cluster_loop n distances method (initial_state n h1))"

text \<open>\<open>hierarchicalClustering\<close> returns \<open>clusters\<close>; the model returns the heap it leaves as
  well.\<close>

definition hierarchicalClustering ::
  "heap \<Rightarrow> addr list \<Rightarrow> LinkageMethod \<Rightarrow> heap \<times> ClusterNode list" where
  "hierarchicalClustering h distanceMatrix method =
     (let st = final_state h distanceMatrix method in (mem st, clusters st))"

section \<open>Cluster extraction (clustering.ts)\<close>

text \<open>\<open>xs.slice(start)\<close> and \<open>xs.slice(0, end)\<close> for integers: a negative argument counts
  from the end, and both are clamped to the array.\<close>

definition slice_from :: "'a list \<Rightarrow> int \<Rightarrow> 'a list" where
  "slice_from xs start =
     (let len = int (length xs)
      in drop (nat (if start < 0 then max (len + start) 0 else min start len)) xs)"

definition slice_to :: "'a list \<Rightarrow> int \<Rightarrow> 'a list" where
  "slice_to xs e =
     (let len = int (length xs)
      in take (nat (if e < 0 then max (len + e) 0 else min e len)) xs)"

text \<open>\<open>xs.indexOf(x)\<close>: the first position of \<open>x\<close>, or \<open>-1\<close>. On objects JavaScript compares
  references; the records of a dendrogram that \<open>hierarchicalClustering\<close> returns are
  separate objects that differ in their fields (each has its own \<open>right\<close>), so comparing
  the fields finds the same position.\<close>

fun indexOf_from :: "nat \<Rightarrow> 'a list \<Rightarrow> 'a \<Rightarrow> int" where
  "indexOf_from i [] x = - 1"
| "indexOf_from i (y # ys) x = (if y = x then int i else indexOf_from (Suc i) ys x)"

definition indexOf :: "'a list \<Rightarrow> 'a \<Rightarrow> int" where
  "indexOf xs x = indexOf_from 0 xs x"

text \<open>One pass of the loop over the selected merges. \<open>assignments\<close> has \<open>n\<close> elements and
  an index is only written when it is below \<open>n\<close>.\<close>

definition assign_merge :: "nat \<Rightarrow> ClusterNode list \<Rightarrow> ClusterNode \<Rightarrow> int list \<Rightarrow> int list" where
  "assign_merge n linkage merge assignments =
     (let clusterId = int n + indexOf linkage merge;
          a1 = (case left merge of
                  Some l \<Rightarrow> if l < n then assignments[l := clusterId] else assignments
                | None \<Rightarrow> assignments)
      in case right merge of
           Some r \<Rightarrow> if r < n then a1[r := clusterId] else a1
         | None \<Rightarrow> a1)"

definition formClusters :: "ClusterNode list \<Rightarrow> int \<Rightarrow> nat \<Rightarrow> nat list" where
  "formClusters linkage k n =
     (let assignments = map int [0..<n];
          merges = slice_from linkage (- (k - 1));
          assigned = fold (assign_merge n linkage) merges assignments;
          uniqueClusters = new_Set assigned;
          mapping = zip uniqueClusters [0..<length uniqueClusters]
      in map (\<lambda>a. case map_of mapping a of Some i \<Rightarrow> i | None \<Rightarrow> 0) assigned)"

section \<open>Evaluation (clustering.ts)\<close>

text \<open>A JavaScript \<open>Map\<close> iterates in insertion order: an association list in which
  \<open>set\<close> replaces the value of a key that is present and appends a new key.\<close>

fun map_set :: "('k \<times> 'v) list \<Rightarrow> 'k \<Rightarrow> 'v \<Rightarrow> ('k \<times> 'v) list" where
  "map_set [] k v = [(k, v)]"
| "map_set ((k', v') # m) k v = (if k' = k then (k, v) # m else (k', v') # map_set m k v)"

definition count_label ::
  "nat \<times> string \<Rightarrow> (nat \<times> (string \<times> nat) list) list \<Rightarrow> (nat \<times> (string \<times> nat) list) list" where
  "count_label p clusterLabels =
     (case p of (cluster, lbl) \<Rightarrow>
        let cl = (if map_of clusterLabels cluster = None then map_set clusterLabels cluster []
                  else clusterLabels);
            labelCounts = (case map_of cl cluster of Some c \<Rightarrow> c | None \<Rightarrow> [])
        in map_set cl cluster
             (map_set labelCounts lbl
                ((case map_of labelCounts lbl of Some c \<Rightarrow> c | None \<Rightarrow> 0) + 1)))"

definition dominant_label :: "(string \<times> nat) list \<Rightarrow> string" where
  "dominant_label labelCounts =
     snd (fold (\<lambda>(lbl, c) (maxCount, maxLabel). if c > maxCount then (c, lbl) else (maxCount, maxLabel))
               labelCounts (0, []))"

definition calculateAccuracy :: "nat list \<Rightarrow> string list \<Rightarrow> num" where
  "calculateAccuracy predicted actual =
     (if length predicted \<noteq> length actual then Num 0
      else
        let clusterLabels = fold count_label (zip predicted actual) [];
            clusterToLabel = map (\<lambda>(cluster, labelCounts). (cluster, dominant_label labelCounts))
                                 clusterLabels;
            correct = length (filter (\<lambda>(c, a). map_of clusterToLabel c = Some a)
                                     (zip predicted actual))
        in num_div (of_count correct) (of_count (length predicted)))"

text \<open>\<open>calculateRandIndex\<close>. \<open>clusters2[i]\<close> beyond the end of \<open>clusters2\<close> is \<open>undefined\<close>,
  which is only equal to itself: \<open>None\<close>.\<close>

definition elem_at :: "'a list \<Rightarrow> nat \<Rightarrow> 'a option" where
  "elem_at xs i = (if i < length xs then Some (xs ! i) else None)"

definition rand_step :: "nat list \<Rightarrow> string list \<Rightarrow> nat \<times> nat \<Rightarrow> nat \<times> nat \<Rightarrow> nat \<times> nat" where
  "rand_step clusters1 clusters2 p ab =
     (case (p, ab) of ((i, j), (a, b)) \<Rightarrow>
        let sameC1 = (elem_at clusters1 i = elem_at clusters1 j);
            sameC2 = (elem_at clusters2 i = elem_at clusters2 j)
        in if sameC1 \<and> sameC2 then (a + 1, b)
           else if \<not> sameC1 \<and> \<not> sameC2 then (a, b + 1)
           else (a, b))"

definition calculateRandIndex :: "nat list \<Rightarrow> string list \<Rightarrow> num" where
  "calculateRandIndex clusters1 clusters2 =
     (let n = length clusters1;
          (a, b) = fold (rand_step clusters1 clusters2) (index_pairs n) (0, 0);
          total = num_div (of_count (n * (n - 1))) (Num 2)
      in num_div (of_count (a + b)) total)"

section \<open>KNN classifier (knn.ts)\<close>

record KNNParams =
  knn_k :: int
  voteType :: string
  distanceType :: string

text \<open>\<open>sort((a, b) => a.distance - b.distance)\<close>. The sort is stable, and where every
  distance is a finite number (each metric above returns one) the comparator is a total
  preorder, so the result is the stable ascending order, computed here by insertion: an
  element moves past those with a strictly smaller distance.\<close>

fun insert_neighbor :: "num \<times> 'l \<Rightarrow> (num \<times> 'l) list \<Rightarrow> (num \<times> 'l) list" where
  "insert_neighbor x [] = [x]"
| "insert_neighbor x (y # ys) =
     (if num_lt (fst y) (fst x) then y # insert_neighbor x ys else x # y # ys)"

definition sort_neighbors :: "(num \<times> 'l) list \<Rightarrow> (num \<times> 'l) list" where
  "sort_neighbors xs = foldr insert_neighbor xs []"

definition neighbor_weight :: "num \<Rightarrow> num" where
  "neighbor_weight d = (if d = Num 0 then Num 1 else num_div (Num 1) (num_add d (Num 0.0001)))"

text \<open>\<open>weights.get(label) || 0\<close>: \<open>undefined\<close>, \<open>0\<close> and \<open>NaN\<close> give \<open>0\<close>.\<close>

definition weight_or_0 :: "num option \<Rightarrow> num" where
  "weight_or_0 w = (case w of None \<Rightarrow> Num 0 | Some NaN \<Rightarrow> Num 0 | Some x \<Rightarrow> x)"

definition add_weight ::
  "num \<times> string option \<Rightarrow> (string option \<times> num) list \<Rightarrow> (string option \<times> num) list" where
  "add_weight nb weights =
     (case nb of (d, lbl) \<Rightarrow>
        map_set weights lbl (num_add (weight_or_0 (map_of weights lbl)) (neighbor_weight d)))"

definition add_vote ::
  "num \<times> string option \<Rightarrow> (string option \<times> nat) list \<Rightarrow> (string option \<times> nat) list" where
  "add_vote nb votes =
     (case nb of (d, lbl) \<Rightarrow>
        map_set votes lbl ((case map_of votes lbl of Some c \<Rightarrow> c | None \<Rightarrow> 0) + 1))"

text \<open>The label of a tweet is optional (\<open>tweet.label!\<close> asserts nothing at run time), so a
  label, and the result, is a \<open>string option\<close>: \<open>None\<close> is \<open>undefined\<close>.
  \<open>tweet.cleaned || tweet.text\<close> is the text when \<open>cleaned\<close> is missing or empty.\<close>

definition knnClassify :: "string \<Rightarrow> Tweet list \<Rightarrow> KNNParams \<Rightarrow> string option" where
  "knnClassify tweetText trainingData params =
     (let distanceFn = getDistanceFunction (distanceType params);
          distances =
            slice_to
              (sort_neighbors
                 (map (\<lambda>tweet.
                         (distanceFn tweetText
                            (case cleaned tweet of
                               Some c \<Rightarrow> if c = [] then tweet_text tweet else c
                             | None \<Rightarrow> tweet_text tweet),
                          label tweet))
                      trainingData))
              (knn_k params)
      in if voteType params = ''weighted''
         then
           snd (fold (\<lambda>(lbl, weight) (maxWeight, predictedLabel).
                        if num_lt maxWeight weight then (weight, lbl) else (maxWeight, predictedLabel))
                     (fold add_weight distances [])
                     (Num (- 1), Some ''neutral''))
         else
           snd (fold (\<lambda>(lbl, c) (maxVotes, predictedLabel).
                        if int c > maxVotes then (int c, lbl) else (maxVotes, predictedLabel))
                     (fold add_vote distances [])
                     (- 1, Some ''neutral'')))"

section \<open>Facts about the numbers\<close>

lemma overflow_limit_gt: "2 ^ 1000 < overflow_limit"
  unfolding overflow_limit_def by simp

lemma overflow_in_range: "\<bar>r\<bar> \<le> 2 ^ 1000 \<Longrightarrow> overflow r = Num r"
  using overflow_limit_gt by (auto simp: overflow_def)

lemma overflow_below: "\<bar>r\<bar> < overflow_limit \<Longrightarrow> overflow r = Num r"
  by (auto simp: overflow_def)

lemma num_div_ge_1: "1 \<le> \<bar>b\<bar> \<Longrightarrow> num_div (Num a) (Num b) = Num (a / b)"
  by auto

lemma num_sub_nonneg: "0 \<le> a \<Longrightarrow> 0 \<le> b \<Longrightarrow> num_sub (Num a) (Num b) = Num (a - b)"
  by simp

text \<open>On doubles, subtraction and division are the exact operation followed by the
  range check, like addition and multiplication.\<close>

lemma num_sub_overflow:
  assumes "\<bar>a\<bar> < overflow_limit" "\<bar>b\<bar> < overflow_limit"
  shows "num_sub (Num a) (Num b) = overflow (a - b)"
  using assms by (auto simp: overflow_def)

lemma num_div_overflow:
  assumes "\<bar>a\<bar> < overflow_limit" "b \<noteq> 0"
  shows "num_div (Num a) (Num b) = overflow (a / b)"
proof (cases "1 \<le> \<bar>b\<bar>")
  case True
  have "\<bar>a\<bar> / \<bar>b\<bar> \<le> \<bar>a\<bar> / 1"
    using True by (intro divide_left_mono) simp_all
  then have "\<bar>a / b\<bar> < overflow_limit"
    using assms(1) by simp
  then have "overflow (a / b) = Num (a / b)"
    by (rule overflow_below)
  then show ?thesis
    using num_div_ge_1 [OF True, of a] by simp
next
  case False
  then show ?thesis using assms(2) by simp
qed

section \<open>Facts about sets, tokens and the metrics\<close>

lemma set_fold_set_add: "set (fold set_add xs acc) = set acc \<union> set xs"
  by (induction xs arbitrary: acc) (auto simp: set_add_def)

lemma distinct_fold_set_add: "distinct acc \<Longrightarrow> distinct (fold set_add xs acc)"
  by (induction xs arbitrary: acc) (auto simp: set_add_def)

lemma set_new_Set [simp]: "set (new_Set xs) = set xs"
  by (simp add: new_Set_def set_fold_set_add)

lemma distinct_new_Set [simp]: "distinct (new_Set xs)"
  by (simp add: new_Set_def distinct_fold_set_add)

lemma length_new_Set: "length (new_Set xs) = card (set xs)"
  using distinct_card [OF distinct_new_Set, of xs] by simp

lemma fold_add_sum_list: "fold (\<lambda>v s. s + f v) xs (a::nat) = a + sum_list (map f xs)"
  by (induction xs arbitrary: a) simp_all

lemma dot_product_sum:
  "fold (\<lambda>(i, v) s. s + v * map g' ws ! i) (enumerate 0 (map g ws)) (0::nat)
   = sum_list (map (\<lambda>w. g w * g' w) ws)"
proof -
  have en: "enumerate 0 (map g ws) = map (\<lambda>i. (i, g (ws ! i))) [0..<length ws]"
    by (rule nth_equalityI) (simp_all add: nth_enumerate_eq)
  have "fold (\<lambda>(i, v) s. s + v * map g' ws ! i) (enumerate 0 (map g ws)) 0
        = sum_list (map (\<lambda>(i, v). v * map g' ws ! i) (enumerate 0 (map g ws)))"
    using fold_add_sum_list [of "\<lambda>(i, v). v * map g' ws ! i" "enumerate 0 (map g ws)" 0]
    by (simp add: case_prod_unfold)
  also have "\<dots> = sum_list (map (\<lambda>i. g (ws ! i) * g' (ws ! i)) [0..<length ws])"
    unfolding en map_map comp_def
    by (intro arg_cong [where f = sum_list] map_cong) simp_all
  also have "\<dots> = sum_list (map (\<lambda>w. g w * g' w) (map (\<lambda>i. ws ! i) [0..<length ws]))"
    by (simp add: comp_def)
  also have "\<dots> = sum_list (map (\<lambda>w. g w * g' w) ws)"
    by (simp only: map_nth)
  finally show ?thesis .
qed

definition tcount :: "string list \<Rightarrow> string \<Rightarrow> nat" where
  "tcount ws w = length (filter (\<lambda>x. x = w) ws)"

lemma sqrt_count_ge_1:
  fixes k :: nat
  assumes "sqrt (real k) \<noteq> 0"
  shows "1 \<le> sqrt (real k)"
proof -
  have "k \<noteq> 0" using assms by auto
  then have "1 \<le> real k" by simp
  then show ?thesis by simp
qed

lemma cosine_quotient:
  fixes k1 k2 :: nat and d :: real
  assumes "sqrt (real k1) \<noteq> 0" "sqrt (real k2) \<noteq> 0" "0 \<le> d"
  shows "num_sub (Num 1) (num_div (Num d) (Num (sqrt (real k1) * sqrt (real k2))))
         = Num (1 - d / (sqrt (real k1) * sqrt (real k2)))"
proof -
  have "1 * 1 \<le> sqrt (real k1) * sqrt (real k2)"
    by (intro mult_mono sqrt_count_ge_1 assms) simp_all
  then have ge: "1 \<le> sqrt (real k1) * sqrt (real k2)" by simp
  then have "1 \<le> \<bar>sqrt (real k1) * sqrt (real k2)\<bar>" by linarith
  moreover have "0 \<le> d / (sqrt (real k1) * sqrt (real k2))"
    using assms(3) ge by (intro divide_nonneg_nonneg) simp_all
  ultimately show ?thesis
    by (simp add: num_div_ge_1 num_sub_nonneg del: num_sub.simps num_div.simps)
qed

lemma cosineDistance_eq:
  "cosineDistance t1 t2 =
     (let S = set (tokens t1) \<union> set (tokens t2);
          dot = (\<Sum>w\<in>S. tcount (tokens t1) w * tcount (tokens t2) w);
          mag1 = sqrt (real (\<Sum>w\<in>S. tcount (tokens t1) w * tcount (tokens t1) w));
          mag2 = sqrt (real (\<Sum>w\<in>S. tcount (tokens t2) w * tcount (tokens t2) w))
      in if mag1 = 0 \<or> mag2 = 0 then Num 1
         else Num (1 - real dot / (mag1 * mag2)))"
proof -
  define ws where "ws = new_Set (tokens t1 @ tokens t2)"
  define S where "S = set (tokens t1) \<union> set (tokens t2)"
  define dot where "dot = (\<Sum>w\<in>S. tcount (tokens t1) w * tcount (tokens t2) w)"
  define k1 where "k1 = (\<Sum>w\<in>S. tcount (tokens t1) w * tcount (tokens t1) w)"
  define k2 where "k2 = (\<Sum>w\<in>S. tcount (tokens t2) w * tcount (tokens t2) w)"
  have d: "distinct ws" and s: "set ws = S"
    by (simp_all add: ws_def S_def)
  have sums: "sum_list (map f ws) = (\<Sum>w\<in>S. f w)" for f :: "string \<Rightarrow> nat"
    using sum_list_distinct_conv_sum_set [OF d, of f] s by simp
  have eq: "cosineDistance t1 t2 =
      (if sqrt (real k1) = 0 \<or> sqrt (real k2) = 0 then Num 1
       else num_sub (Num 1) (num_div (Num (real dot)) (Num (sqrt (real k1) * sqrt (real k2)))))"
    unfolding cosineDistance_def Let_def ws_def [symmetric] dot_def k1_def k2_def
    by (simp add: dot_product_sum fold_add_sum_list comp_def sums of_count_def tcount_def
          del: num_sub.simps num_div.simps)
  have "cosineDistance t1 t2 =
      (if sqrt (real k1) = 0 \<or> sqrt (real k2) = 0 then Num 1
       else Num (1 - real dot / (sqrt (real k1) * sqrt (real k2))))"
  proof (cases "sqrt (real k1) = 0 \<or> sqrt (real k2) = 0")
    case True
    then show ?thesis unfolding eq by (simp only: if_True)
  next
    case False
    then have "sqrt (real k1) \<noteq> 0" "sqrt (real k2) \<noteq> 0" by simp_all
    from cosine_quotient [OF this, of "real dot"] False
    show ?thesis unfolding eq by (simp only: if_False of_nat_0_le_iff simp_thms)
  qed
  then show ?thesis
    unfolding Let_def dot_def k1_def k2_def S_def .
qed

lemma cosine_sym: "cosineDistance a b = cosineDistance b a"
  by (simp add: cosineDistance_eq Let_def Un_commute mult.commute disj_commute)

lemma length_union:
  "length (new_Set (new_Set xs @ new_Set ys)) = card (set xs \<union> set ys)"
  by (simp add: length_new_Set)

lemma length_intersection:
  "length (new_Set (filter (\<lambda>x. x \<in> set (new_Set ys)) (new_Set xs))) = card (set xs \<inter> set ys)"
proof -
  have "{x \<in> set xs. x \<in> set ys} = set xs \<inter> set ys" by auto
  then show ?thesis by (simp add: length_new_Set)
qed

lemma defaultDistance_eq:
  "defaultDistance a b =
     (if set (tokens a) \<union> set (tokens b) = {} then Num 1
      else Num ((real (card (set (tokens a) \<union> set (tokens b)))
                 - real (card (set (tokens a) \<inter> set (tokens b))))
                / real (card (set (tokens a) \<union> set (tokens b)))))"
  unfolding defaultDistance_def Let_def length_union length_intersection
  by (simp add: of_count_def Suc_le_eq card_gt_0_iff)

lemma jaccardDistance_eq:
  "jaccardDistance a b =
     (if set (tokens a) \<union> set (tokens b) = {} then Num 1
      else Num (1 - real (card (set (tokens a) \<inter> set (tokens b)))
                / real (card (set (tokens a) \<union> set (tokens b)))))"
  unfolding jaccardDistance_def Let_def length_union length_intersection
  by (simp add: of_count_def Suc_le_eq card_gt_0_iff)

lemma tweetDistance_eq:
  "tweetDistance a b =
     (let A = set (tokens (toLowerCase a)); B = set (tokens (toLowerCase b))
      in if A = {} \<and> B = {} then Num 1
         else Num ((real (card A + card B) - real (card (A \<inter> B))) / real (card A + card B)))"
  unfolding tweetDistance_def Let_def length_intersection
  by (simp add: length_new_Set of_count_def Suc_le_eq card_gt_0_iff of_nat_add [symmetric]
        del: of_nat_add)

lemma default_sym: "defaultDistance a b = defaultDistance b a"
  by (simp add: defaultDistance_eq Un_commute Int_commute)

lemma jaccard_sym: "jaccardDistance a b = jaccardDistance b a"
  by (simp add: jaccardDistance_eq Un_commute Int_commute)

lemma tweet_sym: "tweetDistance a b = tweetDistance b a"
  by (simp add: tweetDistance_eq Let_def Int_commute add.commute conj_commute)

fun lev :: "string \<Rightarrow> string \<Rightarrow> nat \<Rightarrow> nat \<Rightarrow> nat" where
  "lev s1 s2 0 j = j"
| "lev s1 s2 (Suc i) 0 = Suc i"
| "lev s1 s2 (Suc i) (Suc j) =
     (if s1 ! i = s2 ! j then lev s1 s2 i j
      else min (lev s1 s2 i j + 1) (min (lev s1 s2 (Suc i) j + 1) (lev s1 s2 i (Suc j) + 1)))"

lemma lev_0_right [simp]: "lev s1 s2 i 0 = i"
  by (cases i) simp_all

lemma lev_sym: "lev s1 s2 i j = lev s2 s1 j i"
proof (induction s1 s2 i j rule: lev.induct)
  case (1 s1 s2 j)
  show ?case by simp
next
  case (2 s1 s2 i)
  show ?case by simp
next
  case (3 s1 s2 i j)
  then show ?case by (auto simp: min.commute min.left_commute)
qed

lemma fold_upt_inv:
  assumes "P a m0"
    and "\<And>k m. a \<le> k \<Longrightarrow> k < b \<Longrightarrow> P k m \<Longrightarrow> P (Suc k) (f k m)"
    and "a \<le> b"
  shows "P b (fold f [a..<b] m0)"
  using assms(3,2)
proof (induction b)
  case 0
  with assms(1) show ?case by simp
next
  case (Suc b)
  show ?case
  proof (cases "a = Suc b")
    case True
    with assms(1) show ?thesis by simp
  next
    case False
    with Suc.prems have le: "a \<le> b" by simp
    have "P b (fold f [a..<b] m0)"
      using Suc.IH [OF le] Suc.prems(2) by simp
    then have "P (Suc b) (f b (fold f [a..<b] m0))"
      using Suc.prems(2) [of b] le by simp
    with le show ?thesis by simp
  qed
qed

definition lev_rows_ok :: "string \<Rightarrow> string \<Rightarrow> nat \<Rightarrow> nat \<Rightarrow> table \<Rightarrow> bool" where
  "lev_rows_ok s1 s2 I J m \<longleftrightarrow>
     (\<forall>i<I. \<forall>j\<le>length s2. m i j = Some (lev s1 s2 i j)) \<and>
     (I \<le> length s1 \<longrightarrow> (\<forall>j<J. m I j = Some (lev s1 s2 I j))) \<and>
     (\<forall>i\<le>length s1. m i 0 = Some i)"

lemma lev_init_rows_eq:
  "lev_init_rows len1 = (\<lambda>i j. if i \<le> len1 \<and> j = 0 then Some i else None)"
proof -
  have "fold (\<lambda>i m. m(i := (\<lambda>j. None)(0 := Some i))) [0..<n] (\<lambda>i j. None)
        = (\<lambda>i j. if i < n \<and> j = 0 then Some i else None)" for n
    by (induction n) (auto simp: fun_eq_iff)
  from this [of "len1 + 1"] show ?thesis
    by (simp add: lev_init_rows_def less_Suc_eq_le)
qed

lemma lev_init_row0_eq:
  "lev_init_row0 len2 m0 = (\<lambda>i j. if i = 0 \<and> j \<le> len2 then Some j else m0 i j)"
proof -
  have "fold (\<lambda>j m. m(0 := (m 0)(j := Some j))) [0..<n] m0
        = (\<lambda>i j. if i = 0 \<and> j < n then Some j else m0 i j)" for n
    by (induction n) (auto simp: fun_eq_iff)
  from this [of "len2 + 1"] show ?thesis
    by (simp add: lev_init_row0_def less_Suc_eq_le)
qed

lemma lev_cell_ok:
  assumes ok: "lev_rows_ok s1 s2 i j m" and i: "1 \<le> i" "i \<le> length s1" and j: "1 \<le> j" "j \<le> length s2"
  shows "lev_rows_ok s1 s2 i (Suc j) (lev_cell s1 s2 i j m)"
proof -
  obtain i' j' where ij: "i = Suc i'" "j = Suc j'"
    using i j by (cases i; cases j) auto
  have a: "m i' j' = Some (lev s1 s2 i' j')" and b: "m i' j = Some (lev s1 s2 i' j)"
    using ok j ij unfolding lev_rows_ok_def by auto
  have c: "m i j' = Some (lev s1 s2 i j')"
    using ok ij i unfolding lev_rows_ok_def by auto
  have new: "lev_cell s1 s2 i j m i j = Some (lev s1 s2 i j)"
    using a b c ij by (auto simp: lev_cell_def cell_succ_def)
  have old: "lev_cell s1 s2 i j m a' b' = m a' b'" if "a' \<noteq> i \<or> b' \<noteq> j" for a' b'
    using that by (auto simp: lev_cell_def)
  show ?thesis
    unfolding lev_rows_ok_def
  proof (intro conjI allI impI)
    fix a' b' assume "a' < i" "b' \<le> length s2"
    then show "lev_cell s1 s2 i j m a' b' = Some (lev s1 s2 a' b')"
      using ok old [of a' b'] unfolding lev_rows_ok_def by auto
  next
    fix b' assume "i \<le> length s1" "b' < Suc j"
    then show "lev_cell s1 s2 i j m i b' = Some (lev s1 s2 i b')"
      using ok old [of i b'] new unfolding lev_rows_ok_def by (cases "b' = j") auto
  next
    fix a' assume "a' \<le> length s1"
    then show "lev_cell s1 s2 i j m a' 0 = Some a'"
      using ok old [of a' 0] j unfolding lev_rows_ok_def by auto
  qed
qed

lemma lev_row_ok:
  assumes ok: "lev_rows_ok s1 s2 i 1 m" and i: "1 \<le> i" "i \<le> length s1"
  shows "lev_rows_ok s1 s2 (Suc i) 1
           (fold (\<lambda>j m'. lev_cell s1 s2 i j m') [1..<length s2 + 1] m)"
proof -
  define m' where "m' = fold (\<lambda>j m'. lev_cell s1 s2 i j m') [1..<length s2 + 1] m"
  have "lev_rows_ok s1 s2 i (length s2 + 1) m'"
    unfolding m'_def
  proof (rule fold_upt_inv [where P = "\<lambda>j. lev_rows_ok s1 s2 i j"])
    show "lev_rows_ok s1 s2 i 1 m" by (rule ok)
  next
    fix k m
    assume "1 \<le> k" "k < length s2 + 1" "lev_rows_ok s1 s2 i k m"
    then show "lev_rows_ok s1 s2 i (Suc k) (lev_cell s1 s2 i k m)"
      using i by (intro lev_cell_ok) simp_all
  next
    show "1 \<le> length s2 + 1" by simp
  qed
  then have rows: "\<And>a b. a < i \<Longrightarrow> b \<le> length s2 \<Longrightarrow> m' a b = Some (lev s1 s2 a b)"
    and row: "\<And>b. b \<le> length s2 \<Longrightarrow> m' i b = Some (lev s1 s2 i b)"
    and col: "\<And>a. a \<le> length s1 \<Longrightarrow> m' a 0 = Some a"
    unfolding lev_rows_ok_def using i by auto
  have "lev_rows_ok s1 s2 (Suc i) 1 m'"
    unfolding lev_rows_ok_def
  proof (intro conjI allI impI)
    fix a b assume "a < Suc i" "b \<le> length s2"
    then show "m' a b = Some (lev s1 s2 a b)"
      using rows [of a b] row [of b] by (cases "a = i") auto
  next
    fix b :: nat assume "Suc i \<le> length s1" "b < 1"
    then show "m' (Suc i) b = Some (lev s1 s2 (Suc i) b)"
      using col [of "Suc i"] by simp
  next
    fix a assume "a \<le> length s1"
    then show "m' a 0 = Some a" by (rule col)
  qed
  then show ?thesis by (simp only: m'_def)
qed

lemma lev_fill_ok:
  "lev_rows_ok s1 s2 (length s1 + 1) 1
     (lev_fill s1 s2 (lev_init_row0 (length s2) (lev_init_rows (length s1))))"
  unfolding lev_fill_def
proof (rule fold_upt_inv [where P = "\<lambda>i. lev_rows_ok s1 s2 i 1"])
  show "lev_rows_ok s1 s2 1 1 (lev_init_row0 (length s2) (lev_init_rows (length s1)))"
    by (auto simp: lev_rows_ok_def lev_init_row0_eq lev_init_rows_eq)
next
  fix k m
  assume "1 \<le> k" "k < length s1 + 1" "lev_rows_ok s1 s2 k 1 m"
  then show "lev_rows_ok s1 s2 (Suc k) 1 (fold (lev_cell s1 s2 k) [1..<length s2 + 1] m)"
    by (intro lev_row_ok) simp_all
next
  show "1 \<le> length s1 + 1" by simp
qed

lemma levenshtein_table:
  "lev_fill s1 s2 (lev_init_row0 (length s2) (lev_init_rows (length s1))) (length s1) (length s2)
   = Some (lev s1 s2 (length s1) (length s2))"
  using lev_fill_ok [of s1 s2] unfolding lev_rows_ok_def by simp

lemma levenshteinDistance_eq:
  "levenshteinDistance s1 s2 =
     (if max (length s1) (length s2) = 0 then Num 0
      else Num (real (lev s1 s2 (length s1) (length s2)) / real (max (length s1) (length s2))))"
  by (simp add: levenshteinDistance_def Let_def levenshtein_table of_count_def Suc_le_eq)

lemma levenshtein_sym: "levenshteinDistance a b = levenshteinDistance b a"
  by (simp add: levenshteinDistance_eq lev_sym [of a b] max.commute)


section \<open>The default metric\<close>

text \<open>The default metric in the words of the specification, on the two token sets.\<close>

definition spec_default_distance :: "string set \<Rightarrow> string set \<Rightarrow> real" where
  "spec_default_distance A B =
     (if A = {} \<and> B = {} then 1
      else (real (card (A \<union> B)) - real (card (A \<inter> B))) / real (card (A \<union> B)))"

text \<open>What \<open>tweetDistance\<close> computes on its two token sets: the sizes are added, not the
  sets united.\<close>

definition summed_sizes_distance :: "string set \<Rightarrow> string set \<Rightarrow> real" where
  "summed_sizes_distance A B =
     (if A = {} \<and> B = {} then 1
      else (real (card A + card B) - real (card (A \<inter> B))) / real (card A + card B))"

text \<open>
  C2, as amended. \<open>defaultDistance\<close> of the KNN classifier tokenizes both strings as
  received into the sets \<open>A\<close> and \<open>B\<close> and returns \<open>(|A \<union> B| - |A \<inter> B|) / |A \<union> B|\<close>, and
  1 when both are empty. \<open>tweetDistance\<close> of the clustering engine tokenizes the
  lower-cased strings and returns \<open>(|A| + |B| - |A \<inter> B|) / (|A| + |B|)\<close>, and 1 when both
  are empty.
\<close>

theorem default_metric_formulas:
  "defaultDistance a b = Num (spec_default_distance (set (tokens a)) (set (tokens b))) \<and>
   tweetDistance a b =
     Num (summed_sizes_distance (set (tokens (toLowerCase a))) (set (tokens (toLowerCase b))))"
proof
  show "defaultDistance a b = Num (spec_default_distance (set (tokens a)) (set (tokens b)))"
    by (simp add: defaultDistance_eq spec_default_distance_def)
  show "tweetDistance a b =
     Num (summed_sizes_distance (set (tokens (toLowerCase a))) (set (tokens (toLowerCase b))))"
    by (simp add: tweetDistance_eq summed_sizes_distance_def Let_def)
qed

text \<open>
  C2 as stated fails for \<open>tweetDistance\<close>: on the identical strings \<open>a\<close> and \<open>a\<close> the
  formula of the claim gives 0 and \<open>tweetDistance\<close> returns 1/2, and on \<open>A\<close> and \<open>a\<close>, which
  differ as received, the formula gives 1 and \<open>tweetDistance\<close> returns 1/2.
\<close>

theorem tweetDistance_not_default_counterexample:
  "tweetDistance ''a'' ''a'' = Num (1 / 2) \<and>
   spec_default_distance (set (tokens ''a'')) (set (tokens ''a'')) = 0 \<and>
   tweetDistance ''A'' ''a'' = Num (1 / 2) \<and>
   spec_default_distance (set (tokens ''A'')) (set (tokens ''a'')) = 1"
proof -
  have a: "tokens ''a'' = [''a'']" and b: "tokens ''A'' = [''A'']"
    by code_simp+
  have "tweetDistance ''a'' ''a'' = Num (1 / 2)" and "tweetDistance ''A'' ''a'' = Num (1 / 2)"
    by code_simp+
  then show ?thesis
    by (simp add: spec_default_distance_def a b)
qed

section \<open>Symmetry of the metrics\<close>

text \<open>
  C8. Each distance function (default, jaccard, cosine and levenshtein of the KNN metric
  library, and \<open>tweetDistance\<close> of the clustering engine) is symmetric: the distance from
  \<open>a\<close> to \<open>b\<close> is the distance from \<open>b\<close> to \<open>a\<close>, for all strings.
\<close>

theorem metrics_symmetric:
  "defaultDistance a b = defaultDistance b a \<and>
   jaccardDistance a b = jaccardDistance b a \<and>
   cosineDistance a b = cosineDistance b a \<and>
   levenshteinDistance a b = levenshteinDistance b a \<and>
   tweetDistance a b = tweetDistance b a"
proof (intro conjI)
  show "defaultDistance a b = defaultDistance b a" by (rule default_sym)
  show "jaccardDistance a b = jaccardDistance b a" by (rule jaccard_sym)
  show "cosineDistance a b = cosineDistance b a" by (rule cosine_sym)
  show "levenshteinDistance a b = levenshteinDistance b a" by (rule levenshtein_sym)
  show "tweetDistance a b = tweetDistance b a" by (rule tweet_sym)
qed


section \<open>Reading and writing matrix entries\<close>

lemma arr_get_arr_set:
  "arr_get (arr_set row j v) j' = (if j' = j then v else arr_get row j')"
proof (cases "j < length row")
  case True
  then show ?thesis by (auto simp: arr_get_def arr_set_def)
next
  case False
  then show ?thesis
    by (auto simp: arr_get_def arr_set_def nth_append)
qed

definition rows_ok :: "heap \<Rightarrow> addr list \<Rightarrow> bool" where
  "rows_ok h ds \<longleftrightarrow> distinct ds \<and> list_all (\<lambda>a. a < length h) ds"

lemma length_wr [simp]: "length (wr h ds i j v) = length h"
  by (simp add: wr_def)

lemma rows_ok_wr [simp]: "rows_ok (wr h ds i j v) ds = rows_ok h ds"
  by (simp add: rows_ok_def)

lemma rd_wr:
  assumes "rows_ok h ds" "i < length ds" "i' < length ds"
  shows "rd (wr h ds i j v) ds i' j' = (if i' = i \<and> j' = j then v else rd h ds i' j')"
proof -
  have lt: "ds ! i < length h"
    using assms(1,2) by (simp add: rows_ok_def list_all_length)
  have neq: "ds ! i' \<noteq> ds ! i" if "i' \<noteq> i"
    using that assms by (simp add: rows_ok_def nth_eq_iff_index_eq)
  show ?thesis
  proof (cases "i' = i")
    case True
    then show ?thesis using lt by (simp add: rd_def wr_def arr_get_arr_set)
  next
    case False
    then show ?thesis using neq by (simp add: rd_def wr_def)
  qed
qed

lemma wr_frame: "b \<le> ds ! i \<Longrightarrow> take b (wr h ds i j v) = take b h"
  by (simp add: wr_def take_update_cancel)

lemma newDist_cong:
  assumes "rd h' ds i k = rd h ds i k" "rd h' ds j k = rd h ds j k" "rd h' ds i j = rd h ds i j"
  shows "newDist m h' ds sizes i j k = newDist m h ds sizes i j k"
  using assms by (cases m) (simp_all add: newDist_def)

lemma rd_update_k:
  assumes ok: "rows_ok h ds" and lt: "i < length ds" "k < length ds" "a < length ds"
  shows "rd (update_k m ds sizes i j k h) ds a b =
     (if k \<noteq> i \<and> ((a = i \<and> b = k) \<or> (a = k \<and> b = i)) then newDist m h ds sizes i j k
      else rd h ds a b)"
  using ok lt by (auto simp: update_k_def Let_def rd_wr)

lemma rows_ok_update_k [simp]: "rows_ok (update_k m ds sizes i j k h) ds = rows_ok h ds"
  by (simp add: update_k_def Let_def)

lemma length_update_k [simp]: "length (update_k m ds sizes i j k h) = length h"
  by (simp add: update_k_def Let_def)

lemma rows_ok_fold_update [simp]:
  "rows_ok (fold (update_k m ds sizes i j) ks h) ds = rows_ok h ds"
  by (induction ks arbitrary: h) simp_all

lemma length_fold_update [simp]:
  "length (fold (update_k m ds sizes i j) ks h) = length h"
  by (induction ks arbitrary: h) simp_all

text \<open>The entries after the loop over the remaining clusters, in terms of the heap before it.\<close>

lemma rd_fold_update:
  assumes ok: "rows_ok h ds" and lt: "i < length ds" "a < length ds" and j: "j < length ds"
    and ks: "distinct ks" "list_all (\<lambda>k. k < length ds) ks" "j \<notin> set ks" and ij: "i \<noteq> j"
  shows "rd (fold (update_k m ds sizes i j) ks h) ds a b =
     (if a = i \<and> b \<in> set ks \<and> b \<noteq> i then newDist m h ds sizes i j b
      else if b = i \<and> a \<in> set ks \<and> a \<noteq> i then newDist m h ds sizes i j a
      else rd h ds a b)"
  using ok ks
proof (induction ks arbitrary: h)
  case Nil
  then show ?case by simp
next
  case (Cons k ks)
  let ?h1 = "update_k m ds sizes i j k h"
  have k: "k < length ds" "k \<notin> set ks" "k \<noteq> j"
    using Cons.prems by auto
  have ok1: "rows_ok ?h1 ds" using Cons.prems by simp
  have same: "newDist m ?h1 ds sizes i j c = newDist m h ds sizes i j c"
    if "c \<in> set ks" "c \<noteq> i" for c
  proof (rule newDist_cong)
    have c: "c \<noteq> k" using that k by auto
    show "rd ?h1 ds i c = rd h ds i c"
      using c that by (simp add: rd_update_k Cons.prems(1) lt k)
    show "rd ?h1 ds i j = rd h ds i j"
      using k ij by (auto simp: rd_update_k Cons.prems(1) lt)
    show "rd ?h1 ds j c = rd h ds j c"
      using c that k ij by (auto simp: rd_update_k Cons.prems(1) lt j)
  qed
  have IH: "rd (fold (update_k m ds sizes i j) ks ?h1) ds a b =
     (if a = i \<and> b \<in> set ks \<and> b \<noteq> i then newDist m ?h1 ds sizes i j b
      else if b = i \<and> a \<in> set ks \<and> a \<noteq> i then newDist m ?h1 ds sizes i j a
      else rd ?h1 ds a b)"
    using Cons.IH [OF ok1] Cons.prems by simp
  have h1: "rd ?h1 ds a b =
     (if k \<noteq> i \<and> ((a = i \<and> b = k) \<or> (a = k \<and> b = i)) then newDist m h ds sizes i j k
      else rd h ds a b)"
    by (rule rd_update_k [OF Cons.prems(1) lt(1) k(1) lt(2)])
  consider (row) "a = i" "b \<in> set ks" "b \<noteq> i"
    | (col) "b = i" "a \<in> set ks" "a \<noteq> i" "\<not> (a = i \<and> b \<in> set ks \<and> b \<noteq> i)"
    | (other) "\<not> (a = i \<and> b \<in> set ks \<and> b \<noteq> i)" "\<not> (b = i \<and> a \<in> set ks \<and> a \<noteq> i)"
    by blast
  then show ?case
  proof cases
    case row
    then show ?thesis using IH same [of b] by simp
  next
    case col
    then show ?thesis using IH same [of a] by simp
  next
    case other
    have "rd (fold (update_k m ds sizes i j) ks ?h1) ds a b = rd ?h1 ds a b"
      by (simp only: IH other if_False)
    with other h1 show ?thesis by auto
  qed
qed

section \<open>The closest pair\<close>

fun nonneg :: "num \<Rightarrow> bool" where
  "nonneg (Num x) = (0 \<le> x)"
| "nonneg _ = False"

lemma nonneg_iff: "nonneg v \<longleftrightarrow> (\<exists>x\<ge>0. v = Num x)"
  by (cases v) auto

lemma num_lt_trans: "num_lt a b \<Longrightarrow> num_lt b c \<Longrightarrow> num_lt a c"
  by (cases a; cases b; cases c) auto

lemma num_lt_irrefl: "\<not> num_lt a a"
  by (cases a) auto

lemma num_lt_PInf: "num_lt a b \<Longrightarrow> num_lt a PInf"
  by (cases a; cases b) auto

text \<open>\<open>minDist\<close> in a state of the search.\<close>

definition min_dist :: "(num \<times> nat \<times> nat) option \<Rightarrow> num" where
  "min_dist best = (case best of None \<Rightarrow> PInf | Some (minDist, minI, minJ) \<Rightarrow> minDist)"

lemma scan_step_eq:
  "scan_step h ds act p best =
     (if num_lt (rd h ds (act ! fst p) (act ! snd p)) (min_dist best)
      then Some (rd h ds (act ! fst p) (act ! snd p), act ! fst p, act ! snd p) else best)"
  by (simp add: scan_step_def min_dist_def Let_def)

lemma scan_step_keeps_some:
  "best \<noteq> None \<Longrightarrow> scan_step h ds act p best \<noteq> None"
  by (simp add: scan_step_eq)

lemma scan_step_finds:
  "rd h ds (act ! fst p) (act ! snd p) = Num x \<Longrightarrow> scan_step h ds act p best \<noteq> None"
  by (cases best) (auto simp: scan_step_eq min_dist_def)

lemma fold_scan_keeps_some:
  "best \<noteq> None \<Longrightarrow> fold (scan_step h ds act) ps best \<noteq> None"
proof (induction ps arbitrary: best)
  case Nil
  then show ?case by simp
next
  case (Cons p ps)
  have "scan_step h ds act p best \<noteq> None"
    using Cons.prems by (rule scan_step_keeps_some)
  then have "fold (scan_step h ds act) ps (scan_step h ds act p best) \<noteq> None"
    by (rule Cons.IH)
  then show ?case by simp
qed

lemma fold_scan_finds:
  assumes "p \<in> set ps" "rd h ds (act ! fst p) (act ! snd p) = Num x"
  shows "fold (scan_step h ds act) ps best \<noteq> None"
  using assms
proof (induction ps arbitrary: best)
  case Nil
  then show ?case by simp
next
  case (Cons q ps)
  show ?case
  proof (cases "p = q")
    case True
    then have "scan_step h ds act q best \<noteq> None"
      using Cons.prems(2) by (simp add: scan_step_finds)
    then show ?thesis by (simp add: fold_scan_keeps_some)
  next
    case False
    then show ?thesis using Cons by simp
  qed
qed

text \<open>The triple that the search holds is a pair of the scan with its distance, which is
  below \<open>Infinity\<close>, and no pair scanned so far is strictly closer.\<close>

definition scan_ok ::
  "heap \<Rightarrow> addr list \<Rightarrow> nat list \<Rightarrow> (nat \<times> nat) list \<Rightarrow> (num \<times> nat \<times> nat) option \<Rightarrow> bool" where
  "scan_ok h ds act seen best \<longleftrightarrow>
     (\<forall>p\<in>set seen. \<not> num_lt (rd h ds (act ! fst p) (act ! snd p)) (min_dist best)) \<and>
     (case best of
        None \<Rightarrow> True
      | Some (d, i, j) \<Rightarrow> rd h ds i j = d \<and> num_lt d PInf)"

lemma scan_ok_step:
  assumes "scan_ok h ds act seen best"
  shows "scan_ok h ds act (seen @ [p]) (scan_step h ds act p best)"
proof (cases "num_lt (rd h ds (act ! fst p) (act ! snd p)) (min_dist best)")
  case True
  let ?v = "rd h ds (act ! fst p) (act ! snd p)"
  have step: "scan_step h ds act p best = Some (?v, act ! fst p, act ! snd p)"
    using True by (simp add: scan_step_eq)
  have "\<not> num_lt (rd h ds (act ! fst q) (act ! snd q)) ?v" if "q \<in> set seen" for q
  proof
    assume "num_lt (rd h ds (act ! fst q) (act ! snd q)) ?v"
    then have "num_lt (rd h ds (act ! fst q) (act ! snd q)) (min_dist best)"
      using True by (rule num_lt_trans)
    then show False using assms that by (simp add: scan_ok_def)
  qed
  then show ?thesis
    unfolding step using num_lt_PInf [OF True]
    by (auto simp: scan_ok_def min_dist_def num_lt_irrefl)
next
  case False
  then have "scan_step h ds act p best = best"
    by (simp add: scan_step_eq)
  then show ?thesis
    using assms False by (auto simp: scan_ok_def)
qed

lemma scan_ok_fold:
  "scan_ok h ds act seen best \<Longrightarrow>
   scan_ok h ds act (seen @ ps) (fold (scan_step h ds act) ps best)"
proof (induction ps arbitrary: seen best)
  case Nil
  then show ?case by simp
next
  case (Cons p ps)
  from Cons.IH [OF scan_ok_step [OF Cons.prems, of p]]
  show ?case by simp
qed

lemma closest_pair_ok:
  "scan_ok h ds act (index_pairs (length act)) (closest_pair h ds act)"
  using scan_ok_fold [of h ds act "[]" None "index_pairs (length act)"]
  by (simp add: scan_ok_def closest_pair_def)

lemma closest_pair_value:
  assumes "closest_pair h ds act = Some (d, i, j)"
  shows "rd h ds i j = d" and "num_lt d PInf"
  using closest_pair_ok [of h ds act] assms
  by (simp_all add: scan_ok_def)

lemma closest_pair_least:
  assumes "closest_pair h ds act = Some (d, i, j)" and "a < b" "b < length act"
  shows "\<not> num_lt (rd h ds (act ! a) (act ! b)) d"
proof -
  have "(a, b) \<in> set (index_pairs (length act))"
    using assms(2,3) by (simp add: set_index_pairs)
  then show ?thesis
    using closest_pair_ok [of h ds act] assms(1)
    by (fastforce simp: scan_ok_def min_dist_def)
qed

text \<open>When the search finds no pair, no pair of the active set is below \<open>Infinity\<close>.\<close>

lemma closest_pair_none:
  assumes "closest_pair h ds act = None" and "a < b" "b < length act"
  shows "\<not> num_lt (rd h ds (act ! a) (act ! b)) PInf"
proof -
  have "(a, b) \<in> set (index_pairs (length act))"
    using assms(2,3) by (simp add: set_index_pairs)
  then show ?thesis
    using closest_pair_ok [of h ds act] assms(1)
    by (fastforce simp: scan_ok_def min_dist_def)
qed

lemma closest_pair_exists:
  assumes "a < b" "b < length act" "rd h ds (act ! a) (act ! b) = Num x"
  shows "closest_pair h ds act \<noteq> None"
proof -
  have "(a, b) \<in> set (index_pairs (length act))"
    using assms(1,2) by (simp add: set_index_pairs)
  then show ?thesis
    unfolding closest_pair_def using assms(3) by (intro fold_scan_finds [of "(a, b)"]) simp_all
qed

lemma closest_pair_bounds:
  assumes "closest_pair h ds act = Some (d, i, j)" and "list_all (\<lambda>c. c < n) act"
  shows "i < n \<and> j < n"
  using closest_pair_mem [OF assms(1)] assms(2) by (simp add: list_all_iff)

lemma closest_pair_distinct:
  assumes "closest_pair h ds act = Some (d, i, j)" and "distinct act"
  shows "i \<noteq> j"
proof -
  obtain a b where "a < b" "b < length act" "i = act ! a" "j = act ! b"
    using closest_pair_in [OF assms(1)] by blast
  then show ?thesis using assms(2) by (simp add: nth_eq_iff_index_eq)
qed

section \<open>The invariant of the clustering loop\<close>

text \<open>A finite number between 0 and \<open>B\<close>.\<close>

fun in_range :: "real \<Rightarrow> num \<Rightarrow> bool" where
  "in_range B (Num x) = (0 \<le> x \<and> x \<le> B)"
| "in_range B _ = False"

lemma in_range_iff: "in_range B v \<longleftrightarrow> (\<exists>x. v = Num x \<and> 0 \<le> x \<and> x \<le> B)"
  by (cases v) auto

text \<open>
  A bound \<open>B\<close> on the entries of an \<open>n \<times> n\<close> matrix under which no sum or product of an
  update overflows: the sums of the average update are at most \<open>n \<cdot> B\<close>, those of the ward
  update at most \<open>4 \<cdot> n\<^sup>2 \<cdot> B\<^sup>2\<close>, and the complete update takes a maximum only.
\<close>

definition no_overflow_bound :: "LinkageMethod \<Rightarrow> nat \<Rightarrow> real \<Rightarrow> bool" where
  "no_overflow_bound method n B =
     (case method of
        Average \<Rightarrow> real n * B \<le> 2 ^ 1000
      | Complete \<Rightarrow> True
      | Ward \<Rightarrow> 1 \<le> B \<and> 4 * (real n)\<^sup>2 * B\<^sup>2 \<le> 2 ^ 1000)"

text \<open>
  What the loop keeps true of the entry for two active clusters of sizes \<open>sa\<close> and \<open>sb\<close>,
  when the entries of the matrix it started from are at most \<open>B\<close>: the entry is a finite
  non-negative number \<open>x\<close>; it is at most \<open>B\<close> under the average and the complete update (a
  weighted mean and a maximum of two entries); under the ward update, which can exceed
  both entries it combines, \<open>(sa + sb) \<cdot> x\<^sup>2\<close> is at most \<open>2 \<cdot> sa \<cdot> sb \<cdot> B\<^sup>2\<close>.
\<close>

fun entry_ok :: "LinkageMethod \<Rightarrow> real \<Rightarrow> nat \<Rightarrow> nat \<Rightarrow> num \<Rightarrow> bool" where
  "entry_ok method B sa sb (Num x) =
     (0 \<le> x \<and>
      (case method of
         Ward \<Rightarrow> real (sa + sb) * (x * x) \<le> 2 * real sa * real sb * (B * B)
       | _ \<Rightarrow> x \<le> B))"
| "entry_ok method B sa sb _ = False"

lemma entry_ok_finite: "entry_ok m B sa sb v \<Longrightarrow> \<exists>x\<ge>0. v = Num x"
  by (cases v) auto

lemma entry_ok_commute: "entry_ok m B sa sb v = entry_ok m B sb sa v"
  by (cases v; cases m) (simp_all add: add.commute mult.commute mult.left_commute)

lemma entry_ok_initial: "in_range B v \<Longrightarrow> entry_ok m B 1 1 v"
proof (cases v)
  case (Num x)
  assume "in_range B v"
  then have x: "0 \<le> x" "x \<le> B" using Num by simp_all
  then have "x * x \<le> B * B" by (intro mult_mono) simp_all
  then show ?thesis using Num x by (cases m) simp_all
qed simp_all

definition cl_inv :: "nat \<Rightarrow> addr list \<Rightarrow> LinkageMethod \<Rightarrow> real \<Rightarrow> cstate \<Rightarrow> bool" where
  "cl_inv n ds method B st \<longleftrightarrow>
     distinct (active st) \<and> list_all (\<lambda>c. c < n) (active st) \<and>
     length (clusterSizes st) = n \<and> list_all (\<lambda>c. 1 \<le> clusterSizes st ! c) (active st) \<and>
     sum_list (map (\<lambda>c. clusterSizes st ! c) (active st)) \<le> n \<and>
     rows_ok (mem st) ds \<and> length ds = n \<and>
     (\<forall>a\<in>set (active st). \<forall>b\<in>set (active st). a \<noteq> b \<longrightarrow>
        entry_ok method B (clusterSizes st ! a) (clusterSizes st ! b) (rd (mem st) ds a b)) \<and>
     (method = Ward \<longrightarrow>
        (\<forall>a\<in>set (active st). \<forall>b\<in>set (active st). rd (mem st) ds a b = rd (mem st) ds b a))"

text \<open>The sizes of the active clusters.\<close>

lemma sizes_pair_le:
  fixes f :: "nat \<Rightarrow> nat"
  assumes "distinct xs" "a \<in> set xs" "b \<in> set xs" "a \<noteq> b"
  shows "f a + f b \<le> sum_list (map f xs)"
proof -
  have "sum f {a, b} \<le> sum f (set xs)"
    using assms by (intro sum_mono2) auto
  then show ?thesis
    using assms by (simp add: sum_list_distinct_conv_sum_set)
qed

lemma sizes_merge_sum:
  fixes sz :: "nat list"
  assumes "distinct xs" "i \<in> set xs" "j \<in> set xs" "i \<noteq> j" "i < length sz"
  shows "sum_list (map (\<lambda>c. sz[i := sz ! i + sz ! j] ! c) (removeAll j xs))
         = sum_list (map (\<lambda>c. sz ! c) xs)"
proof -
  let ?g = "\<lambda>c. sz[i := sz ! i + sz ! j] ! c" and ?f = "\<lambda>c. sz ! c"
  let ?R = "set xs - {j} - {i}"
  have d: "distinct (removeAll j xs)" using assms(1) by (simp add: distinct_removeAll)
  have "sum_list (map ?g (removeAll j xs)) = sum ?g (set xs - {j})"
    using d by (simp add: sum_list_distinct_conv_sum_set)
  also have "\<dots> = ?g i + sum ?g ?R"
    using assms by (intro sum.remove) auto
  also have "sum ?g ?R = sum ?f ?R"
    by (intro sum.cong) auto
  also have "?g i = ?f i + ?f j" using assms(5) by simp
  finally have l: "sum_list (map ?g (removeAll j xs)) = ?f i + ?f j + sum ?f ?R" .
  have "sum_list (map ?f xs) = sum ?f (set xs)"
    using assms(1) by (simp add: sum_list_distinct_conv_sum_set)
  also have "\<dots> = ?f j + sum ?f (set xs - {j})"
    using assms by (intro sum.remove) auto
  also have "sum ?f (set xs - {j}) = ?f i + sum ?f ?R"
    using assms by (intro sum.remove) auto
  finally show ?thesis using l by simp
qed


text \<open>The updates on finite numbers within the bound: no sum or product overflows, and
  the result is within the bound of the next state.\<close>

lemma product_in_range:
  fixes x y X Y :: real
  assumes "0 \<le> x" "x \<le> X" "0 \<le> y" "y \<le> Y" "X * Y \<le> 2 ^ 1000"
  shows "num_mul (Num x) (Num y) = Num (x * y)" and "0 \<le> x * y" and "x * y \<le> X * Y"
proof -
  show 0: "0 \<le> x * y" using assms by simp
  show le: "x * y \<le> X * Y" using assms by (intro mult_mono) simp_all
  have "\<bar>x * y\<bar> \<le> 2 ^ 1000" using 0 le assms(5) by simp
  then show "num_mul (Num x) (Num y) = Num (x * y)"
    by (simp add: overflow_in_range)
qed

lemma sum_in_range:
  fixes x y :: real
  assumes "0 \<le> x" "0 \<le> y" "x + y \<le> 2 ^ 1000"
  shows "num_add (Num x) (Num y) = Num (x + y)"
proof -
  have "\<bar>x + y\<bar> \<le> 2 ^ 1000" using assms by simp
  then show ?thesis by (simp add: overflow_in_range)
qed

lemma average_in_range:
  fixes a b A :: real and si sj n :: nat
  assumes a: "0 \<le> a" "a \<le> A" and b: "0 \<le> b" "b \<le> A"
    and sz: "1 \<le> si" "1 \<le> sj" "si + sj \<le> n" and mag: "real n * A \<le> 2 ^ 1000"
  shows "num_div (num_add (num_mul (Num a) (Num (real si))) (num_mul (Num b) (Num (real sj))))
                 (Num (real (si + sj)))
         = Num ((a * real si + b * real sj) / real (si + sj))"
    and "0 \<le> (a * real si + b * real sj) / real (si + sj)"
    and "(a * real si + b * real sj) / real (si + sj) \<le> A"
proof -
  have A0: "0 \<le> A" using a by simp
  have si: "real si \<le> real n" and sj: "real sj \<le> real n" using sz by simp_all
  have "A * real n \<le> 2 ^ 1000" using mag by (simp add: mult.commute)
  note p1 = product_in_range [OF a(1) a(2) _ si this] and p2 = product_in_range [OF b(1) b(2) _ sj this]
  have m1: "num_mul (Num a) (Num (real si)) = Num (a * real si)" and n1: "0 \<le> a * real si"
    using p1 by simp_all
  have m2: "num_mul (Num b) (Num (real sj)) = Num (b * real sj)" and n2: "0 \<le> b * real sj"
    using p2 by simp_all
  have "a * real si \<le> A * real si" "b * real sj \<le> A * real sj"
    using a b by (simp_all add: mult_right_mono)
  then have le: "a * real si + b * real sj \<le> A * real (si + sj)"
    by (simp add: distrib_left)
  also have "\<dots> \<le> A * real n"
    using A0 sz(3) by (intro mult_left_mono) simp_all
  also have "\<dots> \<le> 2 ^ 1000" using mag by (simp add: mult.commute)
  finally have s: "num_add (Num (a * real si)) (Num (b * real sj)) = Num (a * real si + b * real sj)"
    by (intro sum_in_range n1 n2)
  have pos: "1 \<le> \<bar>real (si + sj)\<bar>" using sz by simp
  show "num_div (num_add (num_mul (Num a) (Num (real si))) (num_mul (Num b) (Num (real sj))))
                 (Num (real (si + sj)))
         = Num ((a * real si + b * real sj) / real (si + sj))"
    unfolding m1 m2 s by (rule num_div_ge_1 [OF pos])
  show "0 \<le> (a * real si + b * real sj) / real (si + sj)"
    using n1 n2 by (intro divide_nonneg_nonneg) simp_all
  have "0 < real (si + sj)" using sz by simp
  then show "(a * real si + b * real sj) / real (si + sj) \<le> A"
    using le by (simp add: divide_le_eq)
qed


lemma ward_argument_nonneg:
  fixes a b c :: real and si sj sk :: nat
  assumes "0 \<le> c" "c \<le> a" "c \<le> b"
  shows "0 \<le> (real (si + sk) * a * a + real (sj + sk) * b * b - real sk * c * c)
              / real (si + sj + sk)"
proof -
  have a2: "c * c \<le> a * a" and b2: "c * c \<le> b * b"
    using assms by (simp_all add: mult_mono)
  have "real sk * (c * c) \<le> real (si + sk) * (c * c)"
    by (intro mult_right_mono) (use assms in simp_all)
  also have "\<dots> \<le> real (si + sk) * (a * a)"
    by (intro mult_left_mono a2) simp
  finally have 1: "real sk * (c * c) \<le> real (si + sk) * (a * a)" .
  have 2: "0 \<le> real (sj + sk) * (b * b)" by simp
  have "0 \<le> real (si + sk) * (a * a) + real (sj + sk) * (b * b) - real sk * (c * c)"
    using 1 2 by linarith
  then have "0 \<le> real (si + sk) * a * a + real (sj + sk) * b * b - real sk * c * c"
    by (simp add: mult.assoc)
  then show ?thesis by (intro divide_nonneg_nonneg) simp_all
qed

lemma square_term_in_range:
  fixes x A :: real and s n :: nat
  assumes x: "0 \<le> x" "x \<le> A" and A: "1 \<le> A" and s: "s \<le> n"
    and mag: "real n * (A * A) \<le> 2 ^ 1000"
  shows "num_mul (num_mul (Num (real s)) (Num x)) (Num x) = Num (real s * x * x)"
    and "0 \<le> real s * x * x" and "real s * x * x \<le> real s * (A * A)"
    and "real s * (A * A) \<le> real n * (A * A)"
proof -
  have sn: "real s \<le> real n" using s by simp
  have "real n * A \<le> real n * (A * A)"
    using A by (intro mult_left_mono) simp_all
  then have nA: "real n * A \<le> 2 ^ 1000" using mag by simp
  have s0: "(0 :: real) \<le> real s" by simp
  note p1 = product_in_range [OF s0 sn x nA]
  have "real n * A * A \<le> 2 ^ 1000" using mag by (simp add: mult.assoc)
  note p2 = product_in_range [OF p1(2) p1(3) x this]
  show "num_mul (num_mul (Num (real s)) (Num x)) (Num x) = Num (real s * x * x)"
    unfolding p1(1) by (rule p2(1))
  show "0 \<le> real s * x * x" by (rule p2(2))
  have "x * x \<le> A * A" using x by (intro mult_mono) simp_all
  then show "real s * x * x \<le> real s * (A * A)"
    unfolding mult.assoc by (intro mult_left_mono) simp_all
  show "real s * (A * A) \<le> real n * (A * A)"
    using sn A by (intro mult_right_mono) simp_all
qed

lemma ward_argument_in_range:
  fixes a b c A :: real and si sj sk n :: nat
  assumes a: "0 \<le> a" "a \<le> A" and b: "0 \<le> b" "b \<le> A" and c: "0 \<le> c" "c \<le> A"
    and A: "1 \<le> A" and sz: "1 \<le> si" "si + sk \<le> n" "sj + sk \<le> n"
    and mag: "2 * real n * (A * A) \<le> 2 ^ 1000"
  shows "num_div
           (num_sub
              (num_add (num_mul (num_mul (Num (real (si + sk))) (Num a)) (Num a))
                       (num_mul (num_mul (Num (real (sj + sk))) (Num b)) (Num b)))
              (num_mul (num_mul (Num (real sk)) (Num c)) (Num c)))
           (Num (real (si + sj + sk)))
         = Num ((real (si + sk) * a * a + real (sj + sk) * b * b - real sk * c * c)
                / real (si + sj + sk))"
    and "real (si + sk) * a * a + real (sj + sk) * b * b - real sk * c * c
         \<le> real (si + sk) * (A * A) + real (sj + sk) * (A * A)"
proof -
  let ?P = "real (si + sk)" and ?Q = "real (sj + sk)" and ?R = "real sk"
  let ?S = "real (si + sj + sk)"
  have "0 \<le> real n * (A * A)" by simp
  then have mag1: "real n * (A * A) \<le> 2 ^ 1000" using mag by linarith
  have sk: "sk \<le> n" using sz by simp
  note t1 = square_term_in_range [OF a A sz(2) mag1]
  note t2 = square_term_in_range [OF b A sz(3) mag1]
  note t3 = square_term_in_range [OF c A sk mag1]
  have "?P * a * a + ?Q * b * b \<le> real n * (A * A) + real n * (A * A)"
    using t1(3,4) t2(3,4) by linarith
  also have "\<dots> \<le> 2 ^ 1000" using mag by simp
  finally have s: "num_add (Num (?P * a * a)) (Num (?Q * b * b)) = Num (?P * a * a + ?Q * b * b)"
    by (intro sum_in_range t1(2) t2(2))
  have d: "num_sub (Num (?P * a * a + ?Q * b * b)) (Num (?R * c * c))
           = Num (?P * a * a + ?Q * b * b - ?R * c * c)"
    using t1(2) t2(2) t3(2) by (intro num_sub_nonneg) simp_all
  have S1: "1 \<le> \<bar>?S\<bar>" using sz by simp
  show "num_div
           (num_sub
              (num_add (num_mul (num_mul (Num ?P) (Num a)) (Num a))
                       (num_mul (num_mul (Num ?Q) (Num b)) (Num b)))
              (num_mul (num_mul (Num ?R) (Num c)) (Num c)))
           (Num ?S)
         = Num ((?P * a * a + ?Q * b * b - ?R * c * c) / ?S)"
    unfolding t1(1) t2(1) t3(1) s d by (rule num_div_ge_1 [OF S1])
  show "?P * a * a + ?Q * b * b - ?R * c * c \<le> ?P * (A * A) + ?Q * (A * A)"
    using t1(3) t2(3) t3(2) by linarith
qed

text \<open>The condition on a bound \<open>A\<close> of the three distances that an update combines under
  which the update does not overflow.\<close>

definition update_safe :: "LinkageMethod \<Rightarrow> nat \<Rightarrow> real \<Rightarrow> bool" where
  "update_safe method n A =
     (case method of
        Average \<Rightarrow> real n * A \<le> 2 ^ 1000
      | Complete \<Rightarrow> True
      | Ward \<Rightarrow> 1 \<le> A \<and> 2 * real n * (A * A) \<le> 2 ^ 1000)"

text \<open>The ward update in a state that satisfies the bound on its entries.\<close>

lemma product_exact:
  fixes x y :: real
  assumes "0 \<le> x * y" "x * y \<le> 2 ^ 1000"
  shows "num_mul (Num x) (Num y) = Num (x * y)"
proof -
  have "\<bar>x * y\<bar> \<le> 2 ^ 1000" using assms by simp
  then show ?thesis by (simp add: overflow_in_range)
qed

lemma ward_step:
  fixes a b c B :: real and si sj sk n :: nat
  assumes c: "0 \<le> c" "c \<le> a" "c \<le> b"
    and ea: "real (si + sk) * (a * a) \<le> 2 * real si * real sk * (B * B)"
    and eb: "real (sj + sk) * (b * b) \<le> 2 * real sj * real sk * (B * B)"
    and B: "1 \<le> B" and sz: "1 \<le> si" "1 \<le> sj" "si + sk \<le> n" "sj + sk \<le> n"
    and mag: "4 * (real n)\<^sup>2 * B\<^sup>2 \<le> 2 ^ 1000"
  shows "num_sqrt
           (num_div
              (num_sub
                 (num_add (num_mul (num_mul (Num (real (si + sk))) (Num a)) (Num a))
                          (num_mul (num_mul (Num (real (sj + sk))) (Num b)) (Num b)))
                 (num_mul (num_mul (Num (real sk)) (Num c)) (Num c)))
              (Num (real (si + sj + sk))))
         = Num (sqrt ((real (si + sk) * a * a + real (sj + sk) * b * b - real sk * c * c)
                      / real (si + sj + sk)))"
    and "0 \<le> sqrt ((real (si + sk) * a * a + real (sj + sk) * b * b - real sk * c * c)
                   / real (si + sj + sk))"
    and "real (si + sj + sk)
           * (sqrt ((real (si + sk) * a * a + real (sj + sk) * b * b - real sk * c * c)
                    / real (si + sj + sk))
              * sqrt ((real (si + sk) * a * a + real (sj + sk) * b * b - real sk * c * c)
                      / real (si + sj + sk)))
         \<le> 2 * real (si + sj) * real sk * (B * B)"
proof -
  let ?P = "real (si + sk)" and ?Q = "real (sj + sk)" and ?R = "real sk"
  let ?S = "real (si + sj + sk)"
  let ?E = "2 * (real n * real n) * (B * B)"
  let ?arg = "(?P * a * a + ?Q * b * b - ?R * c * c) / ?S"
  have a0: "0 \<le> a" and b0: "0 \<le> b" using c by simp_all
  have "1 * 1 \<le> B * B" using B by (intro mult_mono) simp_all
  then have BB: "1 \<le> B * B" by simp
  have n1: "1 \<le> real n" using sz by simp
  have lim: "?E + ?E \<le> 2 ^ 1000"
    using mag by (simp add: power2_eq_square)
  have E0: "0 \<le> ?E" by simp
  then have E: "?E \<le> 2 ^ 1000" using lim by linarith
  have "real n * 1 \<le> real n * real n" using n1 by (intro mult_left_mono) simp_all
  also have "\<dots> * 1 \<le> real n * real n * (B * B)" using BB by (intro mult_left_mono) simp_all
  finally have nE: "real n \<le> ?E" by simp
  have sq_term: "num_mul (num_mul (Num (real s)) (Num x)) (Num x) = Num (real s * x * x)
        \<and> 0 \<le> real s * x * x \<and> real s * x * x \<le> ?E"
    if x: "0 \<le> x" and s: "s \<le> n" and sq: "real s * (x * x) \<le> ?E" for s :: nat and x :: real
  proof -
    have sx0: "0 \<le> real s * x" using x by simp
    have sx: "real s * x \<le> ?E"
    proof (cases "x \<le> 1")
      case True
      then have "real s * x \<le> real s * 1" by (intro mult_left_mono) simp_all
      also have "\<dots> \<le> real n" using s by simp
      finally show ?thesis using nE by linarith
    next
      case False
      then have "real s * x * 1 \<le> real s * x * x" using sx0 by (intro mult_left_mono) simp_all
      then show ?thesis using sq by (simp add: mult.assoc)
    qed
    have p1: "num_mul (Num (real s)) (Num x) = Num (real s * x)"
      by (rule product_exact [OF sx0 order_trans [OF sx E]])
    have sxx0: "0 \<le> real s * x * x" using x by simp
    have sxx: "real s * x * x \<le> ?E" using sq by (simp add: mult.assoc)
    have p2: "num_mul (Num (real s * x)) (Num x) = Num (real s * x * x)"
      by (rule product_exact [OF sxx0 order_trans [OF sxx E]])
    show ?thesis unfolding p1 p2 using sxx0 sxx by blast
  qed
  have si: "real si \<le> real n" and sj: "real sj \<le> real n" and sk: "real sk \<le> real n"
    using sz by simp_all
  have "2 * real si * real sk * (B * B) \<le> 2 * real n * real n * (B * B)"
    using si sk by (intro mult_right_mono mult_mono) simp_all
  then have Pa: "?P * (a * a) \<le> ?E" using ea by (simp add: mult.assoc)
  have "2 * real sj * real sk * (B * B) \<le> 2 * real n * real n * (B * B)"
    using sj sk by (intro mult_right_mono mult_mono) simp_all
  then have Qb: "?Q * (b * b) \<le> ?E" using eb by (simp add: mult.assoc)
  have cc: "c * c \<le> a * a" using c by (intro mult_mono) simp_all
  have "?R * (c * c) \<le> ?P * (a * a)"
    by (intro mult_mono cc) simp_all
  then have Rc: "?R * (c * c) \<le> ?E" using Pa by linarith
  note t1 = sq_term [OF a0 sz(3) Pa] and t2 = sq_term [OF b0 sz(4) Qb]
  have "sk \<le> n" using sz by simp
  note t3 = sq_term [OF c(1) this Rc]
  have "?P * a * a + ?Q * b * b \<le> ?E + ?E" using t1 t2 by linarith
  then have "?P * a * a + ?Q * b * b \<le> 2 ^ 1000" using lim by linarith
  then have s: "num_add (Num (?P * a * a)) (Num (?Q * b * b)) = Num (?P * a * a + ?Q * b * b)"
    using t1 t2 by (intro sum_in_range) blast+
  have d: "num_sub (Num (?P * a * a + ?Q * b * b)) (Num (?R * c * c))
           = Num (?P * a * a + ?Q * b * b - ?R * c * c)"
  proof (intro num_sub_nonneg)
    show "0 \<le> ?P * a * a + ?Q * b * b" using t1 t2 by linarith
    show "0 \<le> ?R * c * c" using t3 by blast
  qed
  have S1: "1 \<le> \<bar>?S\<bar>" using sz by simp
  have q: "num_div (Num (?P * a * a + ?Q * b * b - ?R * c * c)) (Num ?S) = Num ?arg"
    by (rule num_div_ge_1 [OF S1])
  have arg0: "0 \<le> ?arg" by (rule ward_argument_nonneg [OF c])
  have e1: "num_mul (num_mul (Num ?P) (Num a)) (Num a) = Num (?P * a * a)" using t1 by blast
  have e2: "num_mul (num_mul (Num ?Q) (Num b)) (Num b) = Num (?Q * b * b)" using t2 by blast
  have e3: "num_mul (num_mul (Num ?R) (Num c)) (Num c) = Num (?R * c * c)" using t3 by blast
  show "num_sqrt
           (num_div
              (num_sub
                 (num_add (num_mul (num_mul (Num ?P) (Num a)) (Num a))
                          (num_mul (num_mul (Num ?Q) (Num b)) (Num b)))
                 (num_mul (num_mul (Num ?R) (Num c)) (Num c)))
              (Num ?S))
         = Num (sqrt ?arg)"
    unfolding e1 e2 e3 s d q using arg0 by simp
  show "0 \<le> sqrt ?arg" using arg0 by simp
  have Spos: "0 < ?S" using sz by simp
  have "sqrt ?arg * sqrt ?arg = \<bar>?arg\<bar>" by (rule real_sqrt_mult_self)
  also have "\<dots> = ?arg" using arg0 by (rule abs_of_nonneg)
  finally have "?S * (sqrt ?arg * sqrt ?arg) = ?S * ?arg" by (rule arg_cong)
  also have "\<dots> = ?P * a * a + ?Q * b * b - ?R * c * c"
  proof -
    have "?S \<noteq> 0" using Spos by linarith
    then show ?thesis by (rule nonzero_mult_div_cancel_left [of ?S, unfolded times_divide_eq_right [symmetric]])
  qed
  also have "\<dots> \<le> ?P * (a * a) + ?Q * (b * b)"
  proof -
    have "0 \<le> ?R * c * c" using t3 by blast
    then show ?thesis by (simp add: mult.assoc)
  qed
  also have "\<dots> \<le> 2 * real si * real sk * (B * B) + 2 * real sj * real sk * (B * B)"
    using ea eb by linarith
  also have "\<dots> = 2 * real (si + sj) * real sk * (B * B)"
    by (simp add: algebra_simps)
  finally show "?S * (sqrt ?arg * sqrt ?arg) \<le> 2 * real (si + sj) * real sk * (B * B)" .
qed

lemma newDist_entry_ok:
  assumes v: "rd h ds i k = Num a" "rd h ds j k = Num b" "rd h ds i j = Num c"
    and ok: "entry_ok m B (sizes ! i) (sizes ! k) (Num a)"
      "entry_ok m B (sizes ! j) (sizes ! k) (Num b)" "0 \<le> c"
    and sz: "1 \<le> sizes ! i" "1 \<le> sizes ! j" "sizes ! i + sizes ! j \<le> n"
      "sizes ! i + sizes ! k \<le> n" "sizes ! j + sizes ! k \<le> n"
    and w: "m = Ward \<longrightarrow> c \<le> a \<and> c \<le> b"
    and bound: "no_overflow_bound m n B"
  shows "entry_ok m B (sizes ! i + sizes ! j) (sizes ! k) (newDist m h ds sizes i j k)"
proof (cases m)
  case Average
  have r: "0 \<le> a" "a \<le> B" "0 \<le> b" "b \<le> B" using ok Average by simp_all
  have mag: "real n * B \<le> 2 ^ 1000" using bound Average by (simp add: no_overflow_bound_def)
  note av = average_in_range [OF r sz(1,2,3) mag]
  show ?thesis
    using Average v av by (simp add: newDist_def of_count_def del: of_nat_add)
next
  case Complete
  then show ?thesis using v ok by (auto simp: newDist_def le_max_iff_disj)
next
  case Ward
  have B: "1 \<le> B" and mag: "4 * (real n)\<^sup>2 * B\<^sup>2 \<le> 2 ^ 1000"
    using bound Ward by (simp_all add: no_overflow_bound_def)
  have c: "c \<le> a" "c \<le> b" using w Ward by simp_all
  have ea: "real (sizes ! i + sizes ! k) * (a * a) \<le> 2 * real (sizes ! i) * real (sizes ! k) * (B * B)"
    and eb: "real (sizes ! j + sizes ! k) * (b * b) \<le> 2 * real (sizes ! j) * real (sizes ! k) * (B * B)"
    using ok Ward by simp_all
  note wd = ward_step [OF ok(3) c ea eb B sz(1,2,4,5) mag]
  show ?thesis
    using Ward v wd by (simp add: newDist_def of_count_def add.assoc del: of_nat_add)
qed

lemma closest_pair_least_sym:
  assumes cp: "closest_pair h ds act = Some (d, i, j)"
    and xy: "x \<in> set act" "y \<in> set act" "x \<noteq> y"
    and sym: "rd h ds x y = rd h ds y x"
  shows "\<not> num_lt (rd h ds x y) d"
proof -
  obtain p q where p: "p < length act" "act ! p = x" and q: "q < length act" "act ! q = y"
    using xy by (auto simp: in_set_conv_nth)
  have "p \<noteq> q" using p q xy by auto
  then consider "p < q" | "q < p" by linarith
  then show ?thesis
  proof cases
    case 1
    then show ?thesis using closest_pair_least [OF cp 1 q(1)] p q by simp
  next
    case 2
    then show ?thesis using closest_pair_least [OF cp 2 p(1)] p q sym by simp
  qed
qed

lemma length_removeAll_distinct:
  assumes "distinct xs" "x \<in> set xs"
  shows "length (removeAll x xs) = length xs - 1"
  using assms distinct_remove1_removeAll [OF assms(1), of x] length_remove1 [of x xs] by simp

lemma merge_clusters_fields:
  "active (merge_clusters n ds m st (d, i, j)) = removeAll j (active st)"
  "clusterSizes (merge_clusters n ds m st (d, i, j)) =
     (clusterSizes st)[i := clusterSizes st ! i + clusterSizes st ! j]"
  "mem (merge_clusters n ds m st (d, i, j)) =
     fold (update_k m ds (clusterSizes st) i j) (removeAll j (active st)) (mem st)"
  "clusters (merge_clusters n ds m st (d, i, j)) =
     clusters st @ [\<lparr>left = Some i, right = Some j, distance = d,
                     count = clusterSizes st ! i + clusterSizes st ! j\<rparr>]"
  by (simp_all add: merge_clusters_def Let_def)

lemma merge_preserves_inv:
  fixes st :: cstate
  assumes inv: "cl_inv n ds m B st"
    and cp: "closest_pair (mem st) ds (active st) = Some (d, i, j)"
    and bound: "no_overflow_bound m n B"
  shows "cl_inv n ds m B (merge_clusters n ds m st (d, i, j))"
proof -
  let ?act = "active st" and ?h = "mem st" and ?sz = "clusterSizes st"
  let ?act' = "removeAll j ?act"
  let ?h' = "fold (update_k m ds ?sz i j) ?act' ?h"
  let ?sz' = "?sz[i := ?sz ! i + ?sz ! j]"
  have dist: "distinct ?act" and below: "list_all (\<lambda>c. c < n) ?act"
    and len: "length ?sz = n" and pos: "list_all (\<lambda>c. 1 \<le> ?sz ! c) ?act"
    and total: "sum_list (map (\<lambda>c. ?sz ! c) ?act) \<le> n"
    and ok: "rows_ok ?h ds" and lds: "length ds = n"
    and rng: "\<And>a b. a \<in> set ?act \<Longrightarrow> b \<in> set ?act \<Longrightarrow> a \<noteq> b \<Longrightarrow>
                entry_ok m B (?sz ! a) (?sz ! b) (rd ?h ds a b)"
    and sym: "\<And>a b. m = Ward \<Longrightarrow> a \<in> set ?act \<Longrightarrow> b \<in> set ?act \<Longrightarrow> rd ?h ds a b = rd ?h ds b a"
    using inv unfolding cl_inv_def by auto
  have i: "i \<in> set ?act" and j: "j \<in> set ?act"
    using closest_pair_mem [OF cp] by auto
  have ij: "i \<noteq> j" using closest_pair_distinct [OF cp dist] .
  have lt: "i < n" "j < n" using closest_pair_bounds [OF cp below] by auto
  have dij: "rd ?h ds i j = d" using closest_pair_value(1) [OF cp] .
  obtain c where c: "d = Num c" "0 \<le> c"
    using entry_ok_finite [OF rng [OF i j ij]] dij by auto
  have act': "distinct ?act'" "list_all (\<lambda>k. k < length ds) ?act'" "j \<notin> set ?act'"
    using dist below lds by (auto simp: list_all_iff distinct_removeAll)
  have entry: "rd ?h' ds a b =
     (if a = i \<and> b \<in> set ?act' \<and> b \<noteq> i then newDist m ?h ds ?sz i j b
      else if b = i \<and> a \<in> set ?act' \<and> a \<noteq> i then newDist m ?h ds ?sz i j a
      else rd ?h ds a b)" if "a < n" for a b
    using rd_fold_update [OF ok _ _ _ act' ij, of a m ?sz b] lt that lds by simp
  have pair: "?sz ! x + ?sz ! y \<le> n" if "x \<in> set ?act" "y \<in> set ?act" "x \<noteq> y" for x y
    using sizes_pair_le [OF dist that, of "\<lambda>c. ?sz ! c"] total by simp
  have new: "entry_ok m B (?sz ! i + ?sz ! j) (?sz ! k) (newDist m ?h ds ?sz i j k)"
    if k: "k \<in> set ?act'" "k \<noteq> i" for k
  proof -
    have kact: "k \<in> set ?act" "k \<noteq> j" using k by auto
    have ik: "i \<noteq> k" and jk: "j \<noteq> k" using k kact by auto
    obtain a where a: "rd ?h ds i k = Num a"
      using entry_ok_finite [OF rng [OF i kact(1) ik]] by auto
    obtain b where b: "rd ?h ds j k = Num b"
      using entry_ok_finite [OF rng [OF j kact(1) jk]] by auto
    have oka: "entry_ok m B (?sz ! i) (?sz ! k) (Num a)"
      using rng [OF i kact(1) ik] a by simp
    have okb: "entry_ok m B (?sz ! j) (?sz ! k) (Num b)"
      using rng [OF j kact(1) jk] b by simp
    have sz: "1 \<le> ?sz ! i" "1 \<le> ?sz ! j"
      using pos i j by (auto simp: list_all_iff)
    have w: "c \<le> a \<and> c \<le> b" if "m = Ward"
    proof
      have "\<not> num_lt (rd ?h ds i k) d"
        by (rule closest_pair_least_sym [OF cp i kact(1) ik sym [OF that i kact(1)]])
      then show "c \<le> a" using a c(1) by simp
      have "\<not> num_lt (rd ?h ds j k) d"
        by (rule closest_pair_least_sym [OF cp j kact(1) jk sym [OF that j kact(1)]])
      then show "c \<le> b" using b c(1) by simp
    qed
    show ?thesis
    proof (rule newDist_entry_ok [OF a b _ oka okb c(2) sz _ _ _ _ bound])
      show "rd ?h ds i j = Num c" using dij c(1) by simp
      show "?sz ! i + ?sz ! j \<le> n" by (rule pair [OF i j ij])
      show "?sz ! i + ?sz ! k \<le> n" by (rule pair [OF i kact(1) ik])
      show "?sz ! j + ?sz ! k \<le> n" by (rule pair [OF j kact(1) jk])
      show "m = Ward \<longrightarrow> c \<le> a \<and> c \<le> b" using w by simp
    qed
  qed
  have inn: "a < n" if "a \<in> set ?act'" for a
    using that below by (auto simp: list_all_iff)
  have szi: "?sz' ! i = ?sz ! i + ?sz ! j" using lt len by simp
  have szo: "?sz' ! a = ?sz ! a" if "a \<noteq> i" for a using that by simp
  show ?thesis
    unfolding cl_inv_def merge_clusters_fields
  proof (intro conjI ballI impI)
    show "distinct ?act'" by (rule act')
    show "list_all (\<lambda>c. c < n) ?act'" using below by (auto simp: list_all_iff)
    show "length ?sz' = n" using len by simp
    show "list_all (\<lambda>c. 1 \<le> ?sz' ! c) ?act'"
      using pos len lt i by (auto simp: list_all_iff nth_list_update)
    show "sum_list (map (\<lambda>c. ?sz' ! c) ?act') \<le> n"
      using sizes_merge_sum [OF dist i j ij, of ?sz] lt len total by simp
    show "rows_ok ?h' ds" using ok by simp
    show "length ds = n" by (rule lds)
  next
    fix a b assume ab: "a \<in> set ?act'" "b \<in> set ?act'" "a \<noteq> b"
    then have old: "entry_ok m B (?sz ! a) (?sz ! b) (rd ?h ds a b)"
      using rng [of a b] by auto
    consider (row) "a = i" | (col) "b = i" "a \<noteq> i" | (other) "a \<noteq> i" "b \<noteq> i" by blast
    then show "entry_ok m B (?sz' ! a) (?sz' ! b) (rd ?h' ds a b)"
    proof cases
      case row
      then have "rd ?h' ds a b = newDist m ?h ds ?sz i j b"
        using entry [OF inn [OF ab(1)], of b] ab by simp
      then show ?thesis
        using new [OF ab(2)] row ab(3) szi szo [of b] by simp
    next
      case col
      then have "rd ?h' ds a b = newDist m ?h ds ?sz i j a"
        using entry [OF inn [OF ab(1)], of b] ab by simp
      then show ?thesis
        using new [OF ab(1) col(2)] col szi szo [of a]
        by (simp add: entry_ok_commute [of m B "?sz ! a"])
    next
      case other
      then have "rd ?h' ds a b = rd ?h ds a b"
        using entry [OF inn [OF ab(1)], of b] by simp
      then show ?thesis
        using old other szo [of a] szo [of b] by simp
    qed
  next
    fix a b assume w: "m = Ward" and ab: "a \<in> set ?act'" "b \<in> set ?act'"
    then have "a \<in> set ?act" "b \<in> set ?act" by auto
    then show "rd ?h' ds a b = rd ?h' ds b a"
      using entry [OF inn [OF ab(1)], of b] entry [OF inn [OF ab(2)], of a] ab sym [OF w, of a b]
      by auto
  qed
qed

lemma cluster_loop_count:
  fixes st :: cstate
  assumes "cl_inv n ds m B st" and "1 \<le> length (active st)" and "no_overflow_bound m n B"
  shows "length (clusters (cluster_loop n ds m st)) = length (clusters st) + length (active st) - 1
         \<and> length (active (cluster_loop n ds m st)) = 1"
  using assms
proof (induction n ds m st rule: cluster_loop.induct)
  case (1 n ds m st)
  note bound = "1.prems"(3)
  show ?case
  proof (cases "1 < length (active st)")
    case False
    with "1.prems" show ?thesis by (simp add: cluster_loop.simps)
  next
    case True
    have inv: "cl_inv n ds m B st" by (rule "1.prems"(1))
    have d: "distinct (active st)" using inv by (simp add: cl_inv_def)
    have l0: "0 < length (active st)" and l1: "1 < length (active st)"
      using True by auto
    have "active st ! 0 \<noteq> active st ! 1"
      using nth_eq_iff_index_eq [OF d l0 l1] by simp
    moreover have "active st ! 0 \<in> set (active st)" "active st ! 1 \<in> set (active st)"
      using l0 l1 by (simp_all only: nth_mem)
    ultimately have "entry_ok m B (clusterSizes st ! (active st ! 0)) (clusterSizes st ! (active st ! 1))
        (rd (mem st) ds (active st ! 0) (active st ! 1))"
      using inv unfolding cl_inv_def by blast
    then obtain x where "rd (mem st) ds (active st ! 0) (active st ! 1) = Num x"
      using entry_ok_finite by blast
    then have "closest_pair (mem st) ds (active st) \<noteq> None"
      using closest_pair_exists [of 0 1 "active st" "mem st" ds x] l1 by simp
    then obtain dd i j where cp: "closest_pair (mem st) ds (active st) = Some (dd, i, j)"
      by auto
    let ?st' = "merge_clusters n ds m st (dd, i, j)"
    have inv': "cl_inv n ds m B ?st'" by (rule merge_preserves_inv [OF inv cp bound])
    have j: "j \<in> set (active st)" using closest_pair_mem [OF cp] by simp
    have la: "length (active ?st') = length (active st) - 1"
      using d j by (simp add: merge_clusters_fields length_removeAll_distinct)
    have lc: "length (clusters ?st') = length (clusters st) + 1"
      by (simp add: merge_clusters_fields)
    have IH: "length (clusters (cluster_loop n ds m ?st')) =
                length (clusters ?st') + length (active ?st') - 1
              \<and> length (active (cluster_loop n ds m ?st')) = 1"
      using "1.IH" [OF True cp inv' _ bound] la True by simp
    have "cluster_loop n ds m st = cluster_loop n ds m ?st'"
      using True cp by (subst cluster_loop.simps) simp
    then show ?thesis using IH la lc True by simp
  qed
qed


section \<open>A run of the clustering engine\<close>

text \<open>A matrix of \<open>n\<close> rows of \<open>n\<close> finite numbers between 0 and \<open>B\<close>, and a symmetric
  one.\<close>

definition bounded_matrix :: "real \<Rightarrow> heap \<Rightarrow> addr list \<Rightarrow> bool" where
  "bounded_matrix B h m \<longleftrightarrow>
     list_all (\<lambda>a. a < length h \<and> length (h ! a) = length m \<and> list_all (in_range B) (h ! a)) m"

definition symmetric_matrix :: "heap \<Rightarrow> addr list \<Rightarrow> bool" where
  "symmetric_matrix h m \<longleftrightarrow>
     list_all (\<lambda>i. list_all (\<lambda>j. rd h m i j = rd h m j i) [0..<length m]) [0..<length m]"

lemma rd_copy_rows:
  assumes "i < length dm"
  shows "rd (fst (copy_rows h dm)) (snd (copy_rows h dm)) i j = rd h dm i j"
  using assms by (simp add: copy_rows_def rd_def nth_append)

lemma rows_ok_copy_rows: "rows_ok (fst (copy_rows h dm)) (snd (copy_rows h dm))"
  by (auto simp: copy_rows_def rows_ok_def list_all_iff)

lemma initial_inv:
  assumes nn: "bounded_matrix B h dm" and sym: "m = Ward \<longrightarrow> symmetric_matrix h dm"
  shows "cl_inv (length dm) (snd (copy_rows h dm)) m B
           (initial_state (length dm) (fst (copy_rows h dm)))"
proof -
  let ?n = "length dm"
  have entry: "entry_ok m B (Suc 0) (Suc 0) (rd h dm a b)" if "a < ?n" "b < ?n" for a b
  proof -
    have "dm ! a \<in> set dm" using that by simp
    then have "length (h ! (dm ! a)) = ?n" "list_all (in_range B) (h ! (dm ! a))"
      using nn by (auto simp: bounded_matrix_def list_all_iff)
    then have "in_range B (rd h dm a b)"
      using that by (simp add: rd_def arr_get_def list_all_length)
    then show ?thesis using entry_ok_initial [of B "rd h dm a b" m] by simp
  qed
  have symm: "rd h dm a b = rd h dm b a" if "m = Ward" "a < ?n" "b < ?n" for a b
    using sym that by (simp add: symmetric_matrix_def list_all_iff)
  have "map (\<lambda>c. replicate ?n (Suc 0) ! c) [0..<?n] = replicate ?n (Suc 0)"
    using map_nth [of "replicate ?n (Suc 0)"] by simp
  then have ones: "sum_list (map (\<lambda>c. replicate ?n (Suc 0) ! c) [0..<?n]) = ?n"
    by (simp add: sum_list_replicate)
  show ?thesis
    unfolding cl_inv_def initial_state_def
    by (simp add: rows_ok_copy_rows rd_copy_rows entry symm list_all_iff ones)
       (simp add: copy_rows_def)
qed

lemma final_state_count:
  assumes nn: "bounded_matrix B h dm" and sym: "m = Ward \<longrightarrow> symmetric_matrix h dm"
    and bound: "no_overflow_bound m (length dm) B" and n: "1 \<le> length dm"
  shows "length (clusters (final_state h dm m)) = length dm - 1
         \<and> length (active (final_state h dm m)) = 1"
proof -
  let ?st = "initial_state (length dm) (fst (copy_rows h dm))"
  have "1 \<le> length (active ?st)" using n by (simp add: initial_state_def)
  from cluster_loop_count [OF initial_inv [OF nn sym] this bound]
  have "length (clusters (cluster_loop (length dm) (snd (copy_rows h dm)) m ?st))
          = length (clusters ?st) + length (active ?st) - 1
        \<and> length (active (cluster_loop (length dm) (snd (copy_rows h dm)) m ?st)) = 1" .
  moreover have "clusters ?st = []" "active ?st = [0..<length dm]"
    by (simp_all add: initial_state_def)
  ultimately show ?thesis
    by (simp add: final_state_def case_prod_unfold Let_def)
qed

lemma final_state_empty:
  assumes "length dm < 2"
  shows "final_state h dm m = initial_state (length dm) (fst (copy_rows h dm))"
  using assms
  by (simp add: final_state_def case_prod_unfold Let_def cluster_loop.simps initial_state_def)

text \<open>Frame: the loop writes only to the rows of its working copy.\<close>

lemma update_k_frame:
  assumes "b0 \<le> ds ! i" "b0 \<le> ds ! k"
  shows "take b0 (update_k m ds sz i j k h) = take b0 h"
  using assms by (simp add: update_k_def Let_def wr_frame)

lemma fold_update_frame:
  assumes "b0 \<le> ds ! i" "list_all (\<lambda>k. b0 \<le> ds ! k) ks"
  shows "take b0 (fold (update_k m ds sz i j) ks h) = take b0 h"
  using assms(2)
proof (induction ks arbitrary: h)
  case Nil
  then show ?case by simp
next
  case (Cons k ks)
  then show ?case
    using assms(1) by (simp add: update_k_frame)
qed

lemma cluster_loop_frame:
  fixes st :: cstate
  assumes "list_all (\<lambda>c. b0 \<le> ds ! c) (active st)"
  shows "take b0 (mem (cluster_loop n ds m st)) = take b0 (mem st)"
  using assms
proof (induction n ds m st rule: cluster_loop.induct)
  case (1 n ds m st)
  show ?case
  proof (cases "1 < length (active st)")
    case False
    then show ?thesis by (simp add: cluster_loop.simps)
  next
    case True
    show ?thesis
    proof (cases "closest_pair (mem st) ds (active st)")
      case None
      then show ?thesis by (simp add: cluster_loop.simps)
    next
      case (Some best)
      obtain d i j where best: "best = (d, i, j)" by (cases best)
      let ?st' = "merge_clusters n ds m st best"
      have i: "i \<in> set (active st)"
        using closest_pair_mem(1) [of "mem st" ds "active st" d i j] Some best by simp
      then have bi: "b0 \<le> ds ! i"
        using "1.prems" by (simp add: list_all_iff)
      have rest: "list_all (\<lambda>c. b0 \<le> ds ! c) (removeAll j (active st))"
        using "1.prems" by (simp add: list_all_iff)
      have step: "take b0 (mem ?st') = take b0 (mem st)"
        unfolding best merge_clusters_fields by (rule fold_update_frame [OF bi rest])
      have "list_all (\<lambda>c. b0 \<le> ds ! c) (active ?st')"
        unfolding best merge_clusters_fields by (rule rest)
      then have "take b0 (mem (cluster_loop n ds m ?st')) = take b0 (mem ?st')"
        by (rule "1.IH" [OF True Some])
      moreover have "cluster_loop n ds m st = cluster_loop n ds m ?st'"
        using True Some by (subst cluster_loop.simps) simp
      ultimately show ?thesis using step by simp
    qed
  qed
qed

lemma final_state_frame: "take (length h) (mem (final_state h dm m)) = h"
proof -
  let ?ds = "[length h..<length h + length dm]"
  have "list_all (\<lambda>c. length h \<le> ?ds ! c) [0..<length dm]"
    by (simp add: list_all_iff)
  then have "take (length h) (mem (cluster_loop (length dm) ?ds m
               (initial_state (length dm) (h @ map (\<lambda>a. h ! a) dm))))
             = take (length h) (mem (initial_state (length dm) (h @ map (\<lambda>a. h ! a) dm)))"
    by (intro cluster_loop_frame) (simp add: initial_state_def)
  then show ?thesis
    by (simp add: final_state_def copy_rows_def initial_state_def Let_def)
qed

text \<open>The children of every record are positions of the active set, below \<open>n\<close>.\<close>

definition leaf_children :: "nat \<Rightarrow> ClusterNode \<Rightarrow> bool" where
  "leaf_children n node \<longleftrightarrow>
     (case (left node, right node) of
        (Some l, Some r) \<Rightarrow> l < n \<and> r < n
      | _ \<Rightarrow> False)"

lemma leaf_children_new:
  "i < n \<Longrightarrow> j < n \<Longrightarrow> leaf_children n \<lparr>left = Some i, right = Some j, distance = d, count = c\<rparr>"
  by (simp add: leaf_children_def)

lemma cluster_loop_children:
  fixes st :: cstate
  assumes "list_all (\<lambda>c. c < n) (active st)" "list_all (leaf_children n) (clusters st)"
  shows "list_all (leaf_children n) (clusters (cluster_loop n ds m st))"
  using assms
proof (induction n ds m st rule: cluster_loop.induct)
  case (1 n ds m st)
  show ?case
  proof (cases "1 < length (active st)")
    case False
    then show ?thesis using "1.prems" by (simp add: cluster_loop.simps)
  next
    case True
    show ?thesis
    proof (cases "closest_pair (mem st) ds (active st)")
      case None
      then show ?thesis using "1.prems" by (simp add: cluster_loop.simps)
    next
      case (Some best)
      obtain d i j where best: "best = (d, i, j)" by (cases best)
      let ?st' = "merge_clusters n ds m st best"
      have ij: "i < n \<and> j < n"
        using closest_pair_bounds [of "mem st" ds "active st" d i j n] Some best "1.prems"(1)
        by simp
      have a: "list_all (\<lambda>c. c < n) (active ?st')"
        unfolding best merge_clusters_fields using "1.prems"(1) by (simp add: list_all_iff)
      have c: "list_all (leaf_children n) (clusters ?st')"
        unfolding best merge_clusters_fields using "1.prems"(2) ij
        by (simp add: leaf_children_new)
      have "list_all (leaf_children n) (clusters (cluster_loop n ds m ?st'))"
        by (rule "1.IH" [OF True Some a c])
      moreover have "cluster_loop n ds m st = cluster_loop n ds m ?st'"
        using True Some by (subst cluster_loop.simps) simp
      ultimately show ?thesis by simp
    qed
  qed
qed

lemma dendrogram_children_below_n:
  "list_all (leaf_children (length dm)) (snd (hierarchicalClustering h dm m))"
proof -
  have "list_all (leaf_children (length dm))
          (clusters (cluster_loop (length dm) (snd (copy_rows h dm)) m
             (initial_state (length dm) (fst (copy_rows h dm)))))"
    by (rule cluster_loop_children) (simp_all add: initial_state_def list_all_iff)
  then show ?thesis
    by (simp add: hierarchicalClustering_def final_state_def case_prod_unfold Let_def)
qed


section \<open>Results on the clustering engine\<close>

text \<open>Small numbers do not overflow.\<close>

lemma overflow_small: "\<bar>r\<bar> \<le> 1000000 \<Longrightarrow> overflow r = Num r"
proof -
  assume "\<bar>r\<bar> \<le> 1000000"
  moreover have "(1000000 :: real) \<le> 2 ^ 1000" by simp
  ultimately have "\<bar>r\<bar> \<le> 2 ^ 1000" by linarith
  then show ?thesis by (rule overflow_in_range)
qed

lemmas run_defs = final_state_def hierarchicalClustering_def copy_rows_def initial_state_def
  cluster_loop.simps closest_pair_def index_pairs_def scan_step_def rd_def arr_get_def
  merge_clusters_def update_k_def newDist_def wr_def arr_set_def of_count_def Let_def
  overflow_small

text \<open>
  C1, at a failing input. Three documents at distances \<open>d(0,1) = 1\<close>, \<open>d(0,2) = d(1,2) = 4\<close>,
  average linkage, \<open>n = 3\<close>. The second merge joins the cluster made by the first merge
  (merge 0, so index \<open>n + 0 = 3\<close> in the extended index space) with document 2, and its
  record has \<open>left = 0\<close>, the slot the merged cluster lives in, not 3. (By
  \<open>dendrogram_children_below_n\<close> no record of any dendrogram has a child index of \<open>n\<close> or
  more.)
\<close>

theorem dendrogram_records_slot_not_merge_index:
  "snd (hierarchicalClustering
          [[Num 0, Num 1, Num 4], [Num 1, Num 0, Num 4], [Num 4, Num 4, Num 0]] [0, 1, 2] Average)
   = [\<lparr>left = Some 0, right = Some 1, distance = Num 1, count = 2\<rparr>,
      \<lparr>left = Some 0, right = Some 2, distance = Num 4, count = 3\<rparr>]"
proof -
  have "final_state [[Num 0, Num 1, Num 4], [Num 1, Num 0, Num 4], [Num 4, Num 4, Num 0]]
          [0, 1, 2] Average
        = \<lparr>active = [0], clusterSizes = [3, 1, 1],
           mem = [[Num 0, Num 1, Num 4], [Num 1, Num 0, Num 4], [Num 4, Num 4, Num 0],
                  [Num 0, Num 1, Num 4], [Num 1, Num 0, Num 4], [Num 4, Num 4, Num 0]],
           clusters = [\<lparr>left = Some 0, right = Some 1, distance = Num 1, count = 2\<rparr>,
                       \<lparr>left = Some 0, right = Some 2, distance = Num 4, count = 3\<rparr>]\<rparr>"
    by (simp add: run_defs upt_rec eval_nat_numeral)
  then show ?thesis
    by (simp add: hierarchicalClustering_def)
qed

text \<open>
  C5, as amended. For every \<open>n \<times> n\<close> distance matrix of non-negative finite numbers that are
  at most \<open>B\<close>, where \<open>n \<cdot> B \<le> 2^1000\<close> for average linkage and \<open>B \<ge> 1\<close> and
  \<open>4 \<cdot> n\<^sup>2 \<cdot> B\<^sup>2 \<le> 2^1000\<close> for ward linkage (no sum or product of an update then leaves
  the range of a double; complete linkage needs no bound), and that is symmetric (which
  only ward linkage needs), the loop of \<open>hierarchicalClustering\<close> halts (the function is
  total) and: when \<open>n \<ge> 2\<close> it returns exactly \<open>n - 1\<close> records and leaves one active
  cluster; when \<open>n < 2\<close> it returns the empty dendrogram and the state is the one the loop
  was entered with (no merge was attempted).
\<close>

theorem clustering_performs_n_minus_1_merges:
  assumes "bounded_matrix B h dm" and "no_overflow_bound method (length dm) B"
    and "method = Ward \<longrightarrow> symmetric_matrix h dm"
  shows "(2 \<le> length dm \<longrightarrow>
            length (snd (hierarchicalClustering h dm method)) = length dm - 1 \<and>
            length (active (final_state h dm method)) = 1) \<and>
         (length dm < 2 \<longrightarrow>
            snd (hierarchicalClustering h dm method) = [] \<and>
            final_state h dm method = initial_state (length dm) (fst (copy_rows h dm)))"
proof (intro conjI impI)
  assume n: "2 \<le> length dm"
  then have "1 \<le> length dm" by simp
  from final_state_count [OF assms(1,3,2) this]
  show "length (snd (hierarchicalClustering h dm method)) = length dm - 1"
    and "length (active (final_state h dm method)) = 1"
    by (simp_all add: hierarchicalClustering_def Let_def)
next
  assume n: "length dm < 2"
  show "final_state h dm method = initial_state (length dm) (fst (copy_rows h dm))"
    by (rule final_state_empty [OF n])
  then show "snd (hierarchicalClustering h dm method) = []"
    by (simp add: hierarchicalClustering_def Let_def initial_state_def)
qed

theorem clustering_performs_n_minus_1_merges_witness:
  "bounded_matrix 4 [[Num 0, Num 1, Num 4], [Num 1, Num 0, Num 4], [Num 4, Num 4, Num 0]] [0, 1, 2] \<and>
   no_overflow_bound Ward 3 4 \<and>
   symmetric_matrix [[Num 0, Num 1, Num 4], [Num 1, Num 0, Num 4], [Num 4, Num 4, Num 0]] [0, 1, 2] \<and>
   length (snd (hierarchicalClustering
             [[Num 0, Num 1, Num 4], [Num 1, Num 0, Num 4], [Num 4, Num 4, Num 0]] [0, 1, 2] Ward)) = 2 \<and>
   snd (hierarchicalClustering [[Num 0]] [0] Ward) = []"
proof -
  let ?h = "[[Num 0, Num 1, Num 4], [Num 1, Num 0, Num 4], [Num 4, Num 4, Num 0]]"
  have nn: "bounded_matrix 4 ?h [0, 1, 2]"
    by (simp add: bounded_matrix_def)
  have b: "no_overflow_bound Ward (length [0, 1, 2 :: nat]) 4"
    by (simp add: no_overflow_bound_def)
  have sym: "symmetric_matrix ?h [0, 1, 2]"
    by (simp add: symmetric_matrix_def rd_def arr_get_def upt_rec eval_nat_numeral)
  then have sym': "Ward = Ward \<longrightarrow> symmetric_matrix ?h [0, 1, 2]" by simp
  have nn1: "bounded_matrix 4 [[Num 0]] [0]"
    by (simp add: bounded_matrix_def)
  have b1: "no_overflow_bound Ward (length [0 :: nat]) 4"
    by (simp add: no_overflow_bound_def)
  have sym1: "Ward = Ward \<longrightarrow> symmetric_matrix [[Num 0]] [0]"
    by (simp add: symmetric_matrix_def)
  have "length (snd (hierarchicalClustering ?h [0, 1, 2] Ward)) = 2"
    using clustering_performs_n_minus_1_merges [OF nn b sym'] by simp
  moreover have "snd (hierarchicalClustering [[Num 0]] [0] Ward) = []"
    using clustering_performs_n_minus_1_merges [OF nn1 b1 sym1] by simp
  moreover have "no_overflow_bound Ward 3 4"
    by (simp add: no_overflow_bound_def)
  ultimately show ?thesis
    using nn sym by simp
qed

text \<open>A run in which the update overflows, for any two finite distances \<open>P < Q\<close> with
  \<open>Q + Q\<close> beyond the range of a double.\<close>

lemma overflowing_run:
  fixes P Q :: real
  assumes "0 < P" "P < Q" "Q < overflow_limit" "overflow_limit \<le> Q + Q"
  shows "final_state [[Num 0, Num P, Num Q], [Num P, Num 0, Num Q], [Num Q, Num Q, Num 0]]
           [0, 1, 2] Average
         = \<lparr>active = [0, 2], clusterSizes = [2, 1, 1],
            mem = [[Num 0, Num P, Num Q], [Num P, Num 0, Num Q], [Num Q, Num Q, Num 0],
                   [Num 0, Num P, PInf], [Num P, Num 0, Num Q], [PInf, Num Q, Num 0]],
            clusters = [\<lparr>left = Some 0, right = Some 1, distance = Num P, count = 2\<rparr>]\<rparr>"
  using assms
  by (simp add: final_state_def copy_rows_def initial_state_def
        cluster_loop.simps closest_pair_def index_pairs_def scan_step_def rd_def arr_get_def
        merge_clusters_def update_k_def newDist_def wr_def arr_set_def of_count_def Let_def
        overflow_def upt_rec eval_nat_numeral)

text \<open>
  C5 as stated fails on a symmetric matrix of non-negative finite numbers whose entries are
  large: \<open>d(0,1) = 2^1023\<close> and \<open>d(0,2) = d(1,2) = 1.5 \<cdot> 2^1023\<close>, all doubles, with average
  linkage. The first merge joins 0 and 1; the update for cluster 2 adds \<open>1.5 \<cdot> 2^1023\<close> to
  itself, which overflows to \<open>Infinity\<close>, and \<open>Infinity\<close> halved is \<open>Infinity\<close>; no pair is then
  below \<open>Infinity\<close>, and the loop is left after one merge with two clusters active.
\<close>

theorem average_overflow_counterexample:
  "bounded_matrix (3 * 2 ^ 1022)
     [[Num 0, Num (2 ^ 1023), Num (3 * 2 ^ 1022)],
      [Num (2 ^ 1023), Num 0, Num (3 * 2 ^ 1022)],
      [Num (3 * 2 ^ 1022), Num (3 * 2 ^ 1022), Num 0]] [0, 1, 2] \<and>
   3 * 2 ^ 1022 < overflow_limit \<and>
   symmetric_matrix
     [[Num 0, Num (2 ^ 1023), Num (3 * 2 ^ 1022)],
      [Num (2 ^ 1023), Num 0, Num (3 * 2 ^ 1022)],
      [Num (3 * 2 ^ 1022), Num (3 * 2 ^ 1022), Num 0]] [0, 1, 2] \<and>
   snd (hierarchicalClustering
     [[Num 0, Num (2 ^ 1023), Num (3 * 2 ^ 1022)],
      [Num (2 ^ 1023), Num 0, Num (3 * 2 ^ 1022)],
      [Num (3 * 2 ^ 1022), Num (3 * 2 ^ 1022), Num 0]] [0, 1, 2] Average)
     = [\<lparr>left = Some 0, right = Some 1, distance = Num (2 ^ 1023), count = 2\<rparr>] \<and>
   active (final_state
     [[Num 0, Num (2 ^ 1023), Num (3 * 2 ^ 1022)],
      [Num (2 ^ 1023), Num 0, Num (3 * 2 ^ 1022)],
      [Num (3 * 2 ^ 1022), Num (3 * 2 ^ 1022), Num 0]] [0, 1, 2] Average)
     = [0, 2]"
proof -
  let ?P = "2 ^ 1023 :: real" and ?Q = "3 * 2 ^ 1022 :: real"
  let ?h = "[[Num 0, Num ?P, Num ?Q], [Num ?P, Num 0, Num ?Q], [Num ?Q, Num ?Q, Num 0]]"
  have lim: "?Q < overflow_limit" and over: "overflow_limit \<le> ?Q + ?Q"
    by (simp_all add: overflow_limit_def)
  have PQ: "0 < ?P" "?P < ?Q"
    by simp_all
  have nn: "bounded_matrix ?Q ?h [0, 1, 2]"
    using PQ by (simp add: bounded_matrix_def del: power_numeral)
  have sym: "symmetric_matrix ?h [0, 1, 2]"
    by (simp add: symmetric_matrix_def rd_def arr_get_def upt_rec eval_nat_numeral
          del: power_numeral)
  note run = overflowing_run [OF PQ lim over]
  have "snd (hierarchicalClustering ?h [0, 1, 2] Average)
          = [\<lparr>left = Some 0, right = Some 1, distance = Num ?P, count = 2\<rparr>]"
    and "active (final_state ?h [0, 1, 2] Average) = [0, 2]"
    unfolding hierarchicalClustering_def Let_def run
    by (simp_all only: snd_conv cstate.simps)
  then show ?thesis
    using lim nn sym by blast
qed

text \<open>
  C9. \<open>hierarchicalClustering\<close> never mutates the caller's matrix: every array that
  exists when it is called (the addresses below \<open>length h\<close>, the rows of the caller's
  matrix among them) holds, when it returns, what it held before, and so every entry of
  the caller's matrix reads as before. All writes go to the rows of the copy.
\<close>

theorem caller_matrix_not_mutated:
  "take (length h) (fst (hierarchicalClustering h distanceMatrix method)) = h \<and>
   (\<forall>i j. distanceMatrix ! i < length h \<longrightarrow>
      rd (fst (hierarchicalClustering h distanceMatrix method)) distanceMatrix i j
        = rd h distanceMatrix i j)"
proof -
  let ?h' = "fst (hierarchicalClustering h distanceMatrix method)"
  have frame: "take (length h) ?h' = h"
    using final_state_frame [of h distanceMatrix "method"]
    by (simp add: hierarchicalClustering_def Let_def)
  have "?h' ! a = h ! a" if "a < length h" for a
  proof -
    have "take (length h) ?h' ! a = ?h' ! a" using that by simp
    then show ?thesis using frame by simp
  qed
  then show ?thesis using frame by (simp add: rd_def)
qed

theorem caller_matrix_not_mutated_witness:
  "take 3 (fst (hierarchicalClustering
       [[Num 0, Num 1, Num 4], [Num 1, Num 0, Num 4], [Num 4, Num 4, Num 0]] [0, 1, 2] Average))
     = [[Num 0, Num 1, Num 4], [Num 1, Num 0, Num 4], [Num 4, Num 4, Num 0]] \<and>
   rd (fst (hierarchicalClustering
       [[Num 0, Num 1, Num 4], [Num 1, Num 0, Num 4], [Num 4, Num 4, Num 0]] [0, 1, 2] Average))
      [0, 1, 2] 0 2 = Num 4"
proof -
  let ?h = "[[Num 0, Num 1, Num 4], [Num 1, Num 0, Num 4], [Num 4, Num 4, Num 0]]"
  let ?h' = "fst (hierarchicalClustering ?h [0, 1, 2] Average)"
  from caller_matrix_not_mutated [of ?h "[0, 1, 2]" Average]
  have t: "take (length ?h) ?h' = ?h"
    and r: "\<forall>i j. [0, 1, 2] ! i < length ?h \<longrightarrow> rd ?h' [0, 1, 2] i j = rd ?h [0, 1, 2] i j"
    by blast+
  have v: "rd ?h [0, 1, 2] 0 2 = Num 4"
    by (simp add: rd_def arr_get_def)
  have "[0, 1, 2 :: nat] ! 0 < length ?h" by simp
  then have "rd ?h' [0, 1, 2] 0 2 = rd ?h [0, 1, 2] 0 2"
    using r by blast
  then show ?thesis using t v by (simp add: numeral_3_eq_3)
qed


section \<open>The linkage update\<close>

text \<open>The closed-form rules in the words of the specification, on the sizes of the
  clusters \<open>i\<close>, \<open>j\<close>, \<open>k\<close> and the distances \<open>d(i,k)\<close>, \<open>d(j,k)\<close>, \<open>d(i,j)\<close>, evaluated in
  the arithmetic of the language: a sum or a product beyond the range of a double is an
  infinity, and the square root of a negative number is \<open>NaN\<close>.\<close>

definition linkage_rule ::
  "LinkageMethod \<Rightarrow> real \<Rightarrow> real \<Rightarrow> real \<Rightarrow> real \<Rightarrow> real \<Rightarrow> real \<Rightarrow> num" where
  "linkage_rule method si sj sk dik djk dij =
     (case method of
        Average \<Rightarrow>
          num_div (num_add (num_mul (Num dik) (Num si)) (num_mul (Num djk) (Num sj)))
                  (Num (si + sj))
      | Complete \<Rightarrow> num_max (Num dik) (Num djk)
      | Ward \<Rightarrow>
          num_sqrt
            (num_div
               (num_sub
                  (num_add (num_mul (num_mul (Num (si + sk)) (Num dik)) (Num dik))
                           (num_mul (num_mul (Num (sj + sk)) (Num djk)) (Num djk)))
                  (num_mul (num_mul (Num sk) (Num dij)) (Num dij)))
               (Num (si + sj + sk))))"

text \<open>The same rules on the reals. They are what \<open>linkage_rule\<close> returns when the distances
  lie within a bound under which the update does not overflow.\<close>

definition exact_linkage_rule ::
  "LinkageMethod \<Rightarrow> real \<Rightarrow> real \<Rightarrow> real \<Rightarrow> real \<Rightarrow> real \<Rightarrow> real \<Rightarrow> num" where
  "exact_linkage_rule method si sj sk dik djk dij =
     (case method of
        Average \<Rightarrow> Num ((dik * si + djk * sj) / (si + sj))
      | Complete \<Rightarrow> Num (max dik djk)
      | Ward \<Rightarrow> num_sqrt (Num (((si + sk) * dik\<^sup>2 + (sj + sk) * djk\<^sup>2 - sk * dij\<^sup>2)
                                / (si + sj + sk))))"

lemma linkage_rule_exact:
  fixes si sj sk n :: nat
  assumes d: "0 \<le> dik" "dik \<le> A" "0 \<le> djk" "djk \<le> A" "0 \<le> dij" "dij \<le> A"
    and sz: "1 \<le> si" "1 \<le> sj" "si + sj \<le> n" "si + sk \<le> n" "sj + sk \<le> n"
    and safe: "update_safe m n A"
  shows "linkage_rule m (real si) (real sj) (real sk) dik djk dij
         = exact_linkage_rule m (real si) (real sj) (real sk) dik djk dij"
proof (cases m)
  case Average
  have mag: "real n * A \<le> 2 ^ 1000" using safe Average by (simp add: update_safe_def)
  note av = average_in_range [OF d(1,2,3,4) sz(1,2,3) mag]
  show ?thesis
    using Average av(1)
    by (simp add: linkage_rule_def exact_linkage_rule_def del: num_div.simps num_add.simps num_mul.simps)
next
  case Complete
  then show ?thesis by (simp add: linkage_rule_def exact_linkage_rule_def)
next
  case Ward
  have A: "1 \<le> A" and mag: "2 * real n * (A * A) \<le> 2 ^ 1000"
    using safe Ward by (simp_all add: update_safe_def)
  note wd = ward_argument_in_range(1) [OF d A sz(1) sz(4) sz(5) mag]
  show ?thesis
    using Ward wd
    by (simp add: linkage_rule_def exact_linkage_rule_def power2_eq_square mult.assoc
          del: num_div.simps num_add.simps num_mul.simps num_sub.simps num_sqrt.simps)
qed

lemma newDist_linkage_rule:
  assumes "rd h ds i k = Num dik" "rd h ds j k = Num djk" "rd h ds i j = Num dij"
  shows "newDist m h ds sizes i j k =
           linkage_rule m (real (sizes ! i)) (real (sizes ! j)) (real (sizes ! k)) dik djk dij"
  using assms by (cases m) (simp_all add: newDist_def linkage_rule_def of_count_def)

text \<open>
  C6. One merge of the active clusters \<open>i\<close> and \<open>j\<close> (\<open>merge_clusters\<close>, the body of the loop
  after the search), in a state whose active set has no duplicates and lies below \<open>n\<close>.
  For every other active cluster \<open>k\<close> the two entries \<open>(i, k)\<close> and \<open>(k, i)\<close> of the working
  matrix become the closed-form rule of the method on the sizes and distances of the state
  before the merge (the rule as the language evaluates it; by
  \<open>merge_applies_exact_linkage_rule\<close> below it is the rule on the reals wherever the update
  does not overflow); then the size of \<open>i\<close> is the sum of the two sizes and \<open>j\<close> has left
  the active set.
\<close>

theorem merge_applies_linkage_rule:
  fixes st :: cstate
  assumes "rows_ok (mem st) ds" and "length ds = n" and "length (clusterSizes st) = n"
    and "distinct (active st)" and "list_all (\<lambda>c. c < n) (active st)"
    and "i \<in> set (active st)" and "j \<in> set (active st)" and "i \<noteq> j"
    and "1 \<le> clusterSizes st ! i" and "1 \<le> clusterSizes st ! j"
    and "k \<in> set (active st)" and "k \<noteq> i" and "k \<noteq> j"
    and "rd (mem st) ds i k = Num dik" and "rd (mem st) ds j k = Num djk"
    and "rd (mem st) ds i j = Num dij"
  shows "rd (mem (merge_clusters n ds method st (d, i, j))) ds i k =
           linkage_rule method (real (clusterSizes st ! i)) (real (clusterSizes st ! j))
             (real (clusterSizes st ! k)) dik djk dij \<and>
         rd (mem (merge_clusters n ds method st (d, i, j))) ds k i =
           linkage_rule method (real (clusterSizes st ! i)) (real (clusterSizes st ! j))
             (real (clusterSizes st ! k)) dik djk dij \<and>
         clusterSizes (merge_clusters n ds method st (d, i, j)) ! i =
           clusterSizes st ! i + clusterSizes st ! j \<and>
         active (merge_clusters n ds method st (d, i, j)) = removeAll j (active st) \<and>
         j \<notin> set (active (merge_clusters n ds method st (d, i, j)))"
proof -
  let ?act' = "removeAll j (active st)"
  let ?h' = "fold (update_k method ds (clusterSizes st) i j) ?act' (mem st)"
  have lt: "i < length ds" "j < length ds" "k < length ds"
    using assms(2,5,6,7,11) by (auto simp: list_all_iff)
  have act': "distinct ?act'" "list_all (\<lambda>c. c < length ds) ?act'" "j \<notin> set ?act'"
    using assms(2,4,5) by (auto simp: list_all_iff distinct_removeAll)
  have k: "k \<in> set ?act'" using assms(11,13) by simp
  have new: "newDist method (mem st) ds (clusterSizes st) i j k =
           linkage_rule method (real (clusterSizes st ! i)) (real (clusterSizes st ! j))
             (real (clusterSizes st ! k)) dik djk dij"
    by (rule newDist_linkage_rule [OF assms(14,15,16)])
  have "rd ?h' ds i k = newDist method (mem st) ds (clusterSizes st) i j k"
    using rd_fold_update [OF assms(1) lt(1) lt(1) lt(2) act' assms(8), of "method" "clusterSizes st" k]
      k assms(12) by simp
  moreover have "rd ?h' ds k i = newDist method (mem st) ds (clusterSizes st) i j k"
    using rd_fold_update [OF assms(1) lt(1) lt(3) lt(2) act' assms(8), of "method" "clusterSizes st" i]
      k assms(12) by simp
  moreover have "(clusterSizes st)[i := clusterSizes st ! i + clusterSizes st ! j] ! i
      = clusterSizes st ! i + clusterSizes st ! j"
    using lt(1) assms(2,3) by simp
  ultimately show ?thesis
    unfolding merge_clusters_fields using new by simp
qed

theorem merge_applies_linkage_rule_witness:
  "rd (mem (merge_clusters 3 [0, 1, 2] Ward
         \<lparr>active = [0, 1, 2], clusterSizes = [1, 1, 1],
           mem = [[Num 0, Num 1, Num 4], [Num 1, Num 0, Num 4], [Num 4, Num 4, Num 0]],
           clusters = []\<rparr> (Num 1, 0, 1))) [0, 1, 2] 0 2 = Num (sqrt 21) \<and>
   rd (mem (merge_clusters 3 [0, 1, 2] Ward
         \<lparr>active = [0, 1, 2], clusterSizes = [1, 1, 1],
           mem = [[Num 0, Num 1, Num 4], [Num 1, Num 0, Num 4], [Num 4, Num 4, Num 0]],
           clusters = []\<rparr> (Num 1, 0, 1))) [0, 1, 2] 2 0 = Num (sqrt 21) \<and>
   clusterSizes (merge_clusters 3 [0, 1, 2] Ward
         \<lparr>active = [0, 1, 2], clusterSizes = [1, 1, 1],
           mem = [[Num 0, Num 1, Num 4], [Num 1, Num 0, Num 4], [Num 4, Num 4, Num 0]],
           clusters = []\<rparr> (Num 1, 0, 1)) ! 0 = 2 \<and>
   active (merge_clusters 3 [0, 1, 2] Ward
         \<lparr>active = [0, 1, 2], clusterSizes = [1, 1, 1],
           mem = [[Num 0, Num 1, Num 4], [Num 1, Num 0, Num 4], [Num 4, Num 4, Num 0]],
           clusters = []\<rparr> (Num 1, 0, 1)) = [0, 2]"
proof -
  let ?h = "[[Num 0, Num 1, Num 4], [Num 1, Num 0, Num 4], [Num 4, Num 4, Num 0]]"
  let ?st = "\<lparr>active = [0, 1, 2], clusterSizes = [1, 1, 1], mem = ?h, clusters = []\<rparr>"
  have rule: "linkage_rule Ward 1 1 1 4 4 1 = Num (sqrt 21)"
    by (simp add: linkage_rule_def overflow_small)
  have "rows_ok (mem ?st) [0, 1, 2]" by (simp add: rows_ok_def)
  moreover have "rd (mem ?st) [0, 1, 2] 0 2 = Num 4" "rd (mem ?st) [0, 1, 2] 1 2 = Num 4"
    "rd (mem ?st) [0, 1, 2] 0 1 = Num 1"
    by (simp_all add: rd_def arr_get_def)
  ultimately show ?thesis
    using merge_applies_linkage_rule [of ?st "[0, 1, 2]" 3 0 1 2 4 4 1 Ward "Num 1"] rule
    by simp
qed

text \<open>Where the distances lie within a bound \<open>A\<close> under which the update does not overflow,
  the two entries are the rule on the reals.\<close>

lemma merge_applies_exact_linkage_rule:
  fixes st :: cstate
  assumes "rows_ok (mem st) ds" and "length ds = n" and "length (clusterSizes st) = n"
    and "distinct (active st)" and "list_all (\<lambda>c. c < n) (active st)"
    and "i \<in> set (active st)" and "j \<in> set (active st)" and "i \<noteq> j"
    and "1 \<le> clusterSizes st ! i" and "1 \<le> clusterSizes st ! j"
    and "k \<in> set (active st)" and "k \<noteq> i" and "k \<noteq> j"
    and "rd (mem st) ds i k = Num dik" and "rd (mem st) ds j k = Num djk"
    and "rd (mem st) ds i j = Num dij"
    and range: "0 \<le> dik" "dik \<le> A" "0 \<le> djk" "djk \<le> A" "0 \<le> dij" "dij \<le> A"
    and sizes: "clusterSizes st ! i + clusterSizes st ! j \<le> n"
      "clusterSizes st ! i + clusterSizes st ! k \<le> n"
      "clusterSizes st ! j + clusterSizes st ! k \<le> n"
    and safe: "update_safe m n A"
  shows "rd (mem (merge_clusters n ds m st (d, i, j))) ds i k =
           exact_linkage_rule m (real (clusterSizes st ! i)) (real (clusterSizes st ! j))
             (real (clusterSizes st ! k)) dik djk dij"
    and "rd (mem (merge_clusters n ds m st (d, i, j))) ds k i =
           exact_linkage_rule m (real (clusterSizes st ! i)) (real (clusterSizes st ! j))
             (real (clusterSizes st ! k)) dik djk dij"
proof -
  let ?act' = "removeAll j (active st)"
  let ?h' = "fold (update_k m ds (clusterSizes st) i j) ?act' (mem st)"
  have lt: "i < length ds" "j < length ds" "k < length ds"
    using assms(2,5,6,7,11) by (auto simp: list_all_iff)
  have act': "distinct ?act'" "list_all (\<lambda>c. c < length ds) ?act'" "j \<notin> set ?act'"
    using assms(2,4,5) by (auto simp: list_all_iff distinct_removeAll)
  have k: "k \<in> set ?act'" using assms(11,13) by simp
  have "newDist m (mem st) ds (clusterSizes st) i j k =
           linkage_rule m (real (clusterSizes st ! i)) (real (clusterSizes st ! j))
             (real (clusterSizes st ! k)) dik djk dij"
    by (rule newDist_linkage_rule [OF assms(14,15,16)])
  also have "\<dots> = exact_linkage_rule m (real (clusterSizes st ! i)) (real (clusterSizes st ! j))
             (real (clusterSizes st ! k)) dik djk dij"
    by (rule linkage_rule_exact [OF range assms(9,10) sizes safe])
  finally have new: "newDist m (mem st) ds (clusterSizes st) i j k =
           exact_linkage_rule m (real (clusterSizes st ! i)) (real (clusterSizes st ! j))
             (real (clusterSizes st ! k)) dik djk dij" .
  have "rd ?h' ds i k = newDist m (mem st) ds (clusterSizes st) i j k"
    using rd_fold_update [OF assms(1) lt(1) lt(1) lt(2) act' assms(8), of m "clusterSizes st" k]
      k assms(12) by simp
  then show "rd (mem (merge_clusters n ds m st (d, i, j))) ds i k =
           exact_linkage_rule m (real (clusterSizes st ! i)) (real (clusterSizes st ! j))
             (real (clusterSizes st ! k)) dik djk dij"
    unfolding merge_clusters_fields using new by simp
  have "rd ?h' ds k i = newDist m (mem st) ds (clusterSizes st) i j k"
    using rd_fold_update [OF assms(1) lt(1) lt(3) lt(2) act' assms(8), of m "clusterSizes st" i]
      k assms(12) by simp
  then show "rd (mem (merge_clusters n ds m st (d, i, j))) ds k i =
           exact_linkage_rule m (real (clusterSizes st ! i)) (real (clusterSizes st ! j))
             (real (clusterSizes st ! k)) dik djk dij"
    unfolding merge_clusters_fields using new by simp
qed


section \<open>Records and extraction\<close>

text \<open>The records of a dendrogram differ in their \<open>right\<close> fields, so \<open>indexOf\<close> on the
  fields finds each record at its own position, as comparing references does.\<close>

definition retired :: "cstate \<Rightarrow> bool" where
  "retired st \<longleftrightarrow>
     distinct (map right (clusters st)) \<and>
     list_all (\<lambda>r. case right r of Some j \<Rightarrow> j \<notin> set (active st) | None \<Rightarrow> True) (clusters st)"

lemma merge_keeps_retired:
  fixes st :: cstate
  assumes "retired st" and "j \<in> set (active st)"
  shows "retired (merge_clusters n ds m st (d, i, j))"
proof -
  have old: "list_all (\<lambda>r. case right r of Some j \<Rightarrow> j \<notin> set (active st) | None \<Rightarrow> True) (clusters st)"
    and dis: "distinct (map right (clusters st))"
    using assms(1) by (simp_all add: retired_def)
  have "Some j \<notin> right ` set (clusters st)"
  proof
    assume "Some j \<in> right ` set (clusters st)"
    then obtain r where "r \<in> set (clusters st)" "right r = Some j" by auto
    then show False using old assms(2) by (auto simp: list_all_iff)
  qed
  moreover have "list_all (\<lambda>r. case right r of Some j' \<Rightarrow> j' \<notin> set (removeAll j (active st)) | None \<Rightarrow> True)
                   (clusters st)"
    using old by (auto simp: list_all_iff split: option.splits)
  ultimately show ?thesis
    unfolding retired_def merge_clusters_fields using dis by simp
qed

lemma cluster_loop_retired:
  fixes st :: cstate
  assumes "retired st"
  shows "retired (cluster_loop n ds m st)"
  using assms
proof (induction n ds m st rule: cluster_loop.induct)
  case (1 n ds m st)
  show ?case
  proof (cases "1 < length (active st)")
    case False
    then show ?thesis using "1.prems" by (simp add: cluster_loop.simps)
  next
    case True
    show ?thesis
    proof (cases "closest_pair (mem st) ds (active st)")
      case None
      then show ?thesis using "1.prems" by (simp add: cluster_loop.simps)
    next
      case (Some best)
      obtain d i j where best: "best = (d, i, j)" by (cases best)
      have j: "j \<in> set (active st)"
        using closest_pair_mem(2) [of "mem st" ds "active st" d i j] Some best by simp
      have "retired (merge_clusters n ds m st best)"
        unfolding best by (rule merge_keeps_retired [OF "1.prems" j])
      then have "retired (cluster_loop n ds m (merge_clusters n ds m st best))"
        by (rule "1.IH" [OF True Some])
      moreover have "cluster_loop n ds m st = cluster_loop n ds m (merge_clusters n ds m st best)"
        using True Some by (subst cluster_loop.simps) simp
      ultimately show ?thesis by simp
    qed
  qed
qed

lemma dendrogram_distinct: "distinct (snd (hierarchicalClustering h dm m))"
proof -
  have "retired (initial_state (length dm) (fst (copy_rows h dm)))"
    by (simp add: retired_def initial_state_def)
  then have "retired (final_state h dm m)"
    unfolding final_state_def Let_def case_prod_unfold by (rule cluster_loop_retired)
  then have "distinct (map right (clusters (final_state h dm m)))"
    by (simp add: retired_def)
  then show ?thesis
    by (simp add: hierarchicalClustering_def Let_def distinct_map)
qed

lemma indexOf_from_nth:
  assumes "distinct xs" "i < length xs"
  shows "indexOf_from b xs (xs ! i) = int (b + i)"
  using assms
proof (induction xs arbitrary: b i)
  case Nil
  then show ?case by simp
next
  case (Cons x xs)
  show ?case
  proof (cases i)
    case 0
    then show ?thesis by simp
  next
    case (Suc i')
    then have "xs ! i' \<in> set xs" using Cons.prems by simp
    then have "x \<noteq> xs ! i'" using Cons.prems by auto
    then show ?thesis using Cons Suc by simp
  qed
qed

lemma indexOf_dendrogram:
  assumes "i < length (snd (hierarchicalClustering h dm m))"
  shows "indexOf (snd (hierarchicalClustering h dm m)) (snd (hierarchicalClustering h dm m) ! i) = int i"
  using indexOf_from_nth [OF dendrogram_distinct assms, of 0] by (simp add: indexOf_def)

text \<open>What holds of \<open>formClusters\<close> on every input: the result has \<open>n\<close> elements, and its ids
  are dense from 0 in the order of first occurrence.\<close>

lemma length_assign_merge [simp]: "length (assign_merge n linkage merge xs) = length xs"
  by (simp add: assign_merge_def Let_def split: option.splits)

lemma length_fold_assign_merge [simp]:
  "length (fold (assign_merge n linkage) merges xs) = length xs"
  by (induction merges arbitrary: xs) simp_all

lemma length_formClusters: "length (formClusters linkage k n) = n"
  by (simp add: formClusters_def Let_def)

fun first_index :: "'a list \<Rightarrow> 'a \<Rightarrow> nat" where
  "first_index [] x = 0"
| "first_index (y # ys) x = (if y = x then 0 else Suc (first_index ys x))"

lemma map_of_zip_upt:
  assumes "distinct us" "a \<in> set us"
  shows "map_of (zip us [b..<b + length us]) a = Some (b + first_index us a)"
  using assms
proof (induction us arbitrary: b)
  case Nil
  then show ?case by simp
next
  case (Cons u us)
  have upt: "[b..<b + length (u # us)] = b # [Suc b..<Suc b + length us]"
    by (simp add: upt_rec)
  show ?case
  proof (cases "a = u")
    case True
    then show ?thesis unfolding upt by simp
  next
    case False
    then have "map_of (zip us [Suc b..<Suc b + length us]) a = Some (Suc b + first_index us a)"
      using Cons.IH [of "Suc b"] Cons.prems by simp
    then show ?thesis unfolding upt using False by simp
  qed
qed

lemma formClusters_ids:
  "formClusters linkage k n =
     (let assigned = fold (assign_merge n linkage) (slice_from linkage (- (k - 1))) (map int [0..<n])
      in map (first_index (new_Set assigned)) assigned)"
proof -
  define assigned where
    "assigned = fold (assign_merge n linkage) (slice_from linkage (- (k - 1))) (map int [0..<n])"
  have look: "map_of (zip (new_Set assigned) [0..<length (new_Set assigned)]) a
          = Some (first_index (new_Set assigned) a)" if "a \<in> set assigned" for a
    using map_of_zip_upt [of "new_Set assigned" a 0] that by simp
  have "(case map_of (zip (new_Set assigned) [0..<length (new_Set assigned)]) a of
           Some i \<Rightarrow> i | None \<Rightarrow> 0) = first_index (new_Set assigned) a"
    if "a \<in> set assigned" for a
    by (simp only: look [OF that] option.case)
  then have "map (\<lambda>a. case map_of (zip (new_Set assigned) [0..<length (new_Set assigned)]) a of
                         Some i \<Rightarrow> i | None \<Rightarrow> 0) assigned
             = map (first_index (new_Set assigned)) assigned"
    by (intro map_cong) simp_all
  then show ?thesis
    by (simp add: formClusters_def Let_def assigned_def)
qed

lemma first_index_lt: "x \<in> set us \<Longrightarrow> first_index us x < length us"
  by (induction us) auto

lemma first_index_nth: "distinct us \<Longrightarrow> i < length us \<Longrightarrow> first_index us (us ! i) = i"
proof (induction us arbitrary: i)
  case Nil
  then show ?case by simp
next
  case (Cons u us)
  then show ?case by (cases i) auto
qed

lemma formClusters_dense:
  "set (formClusters linkage k n) = {..<card (set (formClusters linkage k n))}"
proof -
  define assigned where
    "assigned = fold (assign_merge n linkage) (slice_from linkage (- (k - 1))) (map int [0..<n])"
  let ?us = "new_Set assigned"
  have res: "formClusters linkage k n = map (first_index ?us) assigned"
    by (simp add: formClusters_ids Let_def assigned_def)
  have "set (map (first_index ?us) assigned) = {..<length ?us}"
  proof (intro set_eqI iffI)
    fix i assume "i \<in> set (map (first_index ?us) assigned)"
    then show "i \<in> {..<length ?us}"
      using first_index_lt [of _ ?us] by auto
  next
    fix i assume "i \<in> {..<length ?us}"
    then have i: "i < length ?us" by simp
    then have "?us ! i \<in> set assigned" using nth_mem [OF i] by simp
    moreover have "first_index ?us (?us ! i) = i"
      by (rule first_index_nth) (simp_all add: i)
    ultimately show "i \<in> set (map (first_index ?us) assigned)"
      by force
  qed
  then have s: "set (formClusters linkage k n) = {..<length ?us}" by (simp add: res)
  then have "card (set (formClusters linkage k n)) = length ?us" by simp
  with s show ?thesis by simp
qed


section \<open>The scenario of three documents\<close>

definition scenario_docs :: "Tweet list" where
  "scenario_docs =
     [\<lparr>tweet_id = 1, tweet_text = ''i love this'', label = Some ''positive'',
        predictedLabel = None, cleaned = Some ''i love this''\<rparr>,
      \<lparr>tweet_id = 2, tweet_text = ''i love this'', label = Some ''positive'',
        predictedLabel = None, cleaned = Some ''i love this''\<rparr>,
      \<lparr>tweet_id = 3, tweet_text = ''i hate this'', label = Some ''negative'',
        predictedLabel = None, cleaned = Some ''i hate this''\<rparr>]"

text \<open>The matrix that \<open>createDistanceMatrix\<close> builds for the scenario, on an empty heap.\<close>

definition scenario_matrix :: heap where
  "scenario_matrix =
     [[Num 0, Num (1 / 2), Num (2 / 3)],
      [Num (1 / 2), Num 0, Num (2 / 3)],
      [Num (2 / 3), Num (2 / 3), Num 0]]"

lemma scenario_createDistanceMatrix:
  "createDistanceMatrix [] scenario_docs = Some (scenario_matrix, [0, 1, 2])"
  unfolding scenario_docs_def scenario_matrix_def by code_simp

lemma scenario_final_state:
  "final_state scenario_matrix [0, 1, 2] Average
   = \<lparr>active = [0], clusterSizes = [3, 1, 1],
      mem = scenario_matrix @
            [[Num 0, Num (1 / 2), Num (2 / 3)],
             [Num (1 / 2), Num 0, Num (2 / 3)],
             [Num (2 / 3), Num (2 / 3), Num 0]],
      clusters = [\<lparr>left = Some 0, right = Some 1, distance = Num (1 / 2), count = 2\<rparr>,
                  \<lparr>left = Some 0, right = Some 2, distance = Num (2 / 3), count = 3\<rparr>]\<rparr>"
  unfolding scenario_matrix_def
  by (simp add: run_defs upt_rec eval_nat_numeral)

lemma scenario_dendrogram:
  "snd (hierarchicalClustering scenario_matrix [0, 1, 2] Average)
   = [\<lparr>left = Some 0, right = Some 1, distance = Num (1 / 2), count = 2\<rparr>,
      \<lparr>left = Some 0, right = Some 2, distance = Num (2 / 3), count = 3\<rparr>]"
  unfolding hierarchicalClustering_def Let_def scenario_final_state by simp

lemma scenario_formClusters:
  "formClusters [\<lparr>left = Some 0, right = Some 1, distance = Num (1 / 2), count = 2\<rparr>,
                 \<lparr>left = Some 0, right = Some 2, distance = Num (2 / 3), count = 3\<rparr>] 2 3
   = [0, 1, 0]"
  by code_simp

lemma scenario_accuracy:
  "calculateAccuracy [0, 1, 0] [''positive'', ''positive'', ''negative''] = Num (2 / 3)"
  by code_simp

text \<open>
  C3, as amended. For the three documents \<open>i love this\<close>, \<open>i love this\<close>, \<open>i hate this\<close>,
  clustered with average linkage on the matrix that \<open>createDistanceMatrix\<close> builds: the two
  identical documents are merged first, at merge distance 1/2 (\<open>tweetDistance\<close> of two
  identical documents of three tokens is \<open>(6 - 3) / 6\<close>), before either merges with
  \<open>i hate this\<close>, which joins them in the second merge at distance 2/3.
\<close>

theorem scenario_identical_documents_merge_first:
  "createDistanceMatrix [] scenario_docs = Some (scenario_matrix, [0, 1, 2]) \<and>
   tweetDistance ''i love this'' ''i love this'' = Num (1 / 2) \<and>
   snd (hierarchicalClustering scenario_matrix [0, 1, 2] Average)
     = [\<lparr>left = Some 0, right = Some 1, distance = Num (1 / 2), count = 2\<rparr>,
        \<lparr>left = Some 0, right = Some 2, distance = Num (2 / 3), count = 3\<rparr>]"
proof (intro conjI)
  show "createDistanceMatrix [] scenario_docs = Some (scenario_matrix, [0, 1, 2])"
    by (rule scenario_createDistanceMatrix)
  show "tweetDistance ''i love this'' ''i love this'' = Num (1 / 2)"
    by code_simp
  show "snd (hierarchicalClustering scenario_matrix [0, 1, 2] Average)
     = [\<lparr>left = Some 0, right = Some 1, distance = Num (1 / 2), count = 2\<rparr>,
        \<lparr>left = Some 0, right = Some 2, distance = Num (2 / 3), count = 3\<rparr>]"
    by (rule scenario_dendrogram)
qed

text \<open>
  C3 as stated fails twice on the scenario: the first merge is at distance 1/2, not 0,
  and the assignment extracted at \<open>k = 2\<close> is \<open>[0, 1, 0]\<close>, which puts \<open>i hate this\<close> with
  the first \<open>i love this\<close>, so the accuracy is 2/3, not 1.
\<close>

theorem scenario_distance_and_accuracy_counterexample:
  "createDistanceMatrix [] scenario_docs = Some (scenario_matrix, [0, 1, 2]) \<and>
   distance (hd (snd (hierarchicalClustering scenario_matrix [0, 1, 2] Average))) = Num (1 / 2) \<and>
   formClusters (snd (hierarchicalClustering scenario_matrix [0, 1, 2] Average)) 2 3 = [0, 1, 0] \<and>
   calculateAccuracy
     (formClusters (snd (hierarchicalClustering scenario_matrix [0, 1, 2] Average)) 2 3)
     [''positive'', ''positive'', ''negative''] = Num (2 / 3)"
  unfolding scenario_dendrogram scenario_formClusters scenario_accuracy scenario_createDistanceMatrix
  by simp

section \<open>Extraction at a failing input\<close>

text \<open>
  C4, at a failing input. Four documents at distances \<open>d(0,1) = 1\<close>, \<open>d(2,3) = 2\<close>,
  \<open>d(0,2) = d(1,2) = 4\<close>, \<open>d(0,3) = d(1,3) = 5\<close>, average linkage: the dendrogram is
  \<open>(0,1)\<close>, \<open>(2,3)\<close>, \<open>(0,2)\<close>, and \<open>formClusters\<close> with \<open>k = 2\<close> returns \<open>[0, 1, 0, 2]\<close>, three
  distinct ids where the claim allows two.
\<close>

theorem formClusters_more_than_k_ids:
  "snd (hierarchicalClustering
          [[Num 0, Num 1, Num 4, Num 5], [Num 1, Num 0, Num 4, Num 5],
           [Num 4, Num 4, Num 0, Num 2], [Num 5, Num 5, Num 2, Num 0]] [0, 1, 2, 3] Average)
     = [\<lparr>left = Some 0, right = Some 1, distance = Num 1, count = 2\<rparr>,
        \<lparr>left = Some 2, right = Some 3, distance = Num 2, count = 2\<rparr>,
        \<lparr>left = Some 0, right = Some 2, distance = Num (9 / 2), count = 4\<rparr>] \<and>
   formClusters
     (snd (hierarchicalClustering
          [[Num 0, Num 1, Num 4, Num 5], [Num 1, Num 0, Num 4, Num 5],
           [Num 4, Num 4, Num 0, Num 2], [Num 5, Num 5, Num 2, Num 0]] [0, 1, 2, 3] Average))
     2 4 = [0, 1, 0, 2] \<and>
   card (set [0, 1, 0, 2 :: nat]) = 3"
proof -
  have run: "clusters (final_state
          [[Num 0, Num 1, Num 4, Num 5], [Num 1, Num 0, Num 4, Num 5],
           [Num 4, Num 4, Num 0, Num 2], [Num 5, Num 5, Num 2, Num 0]] [0, 1, 2, 3] Average)
     = [\<lparr>left = Some 0, right = Some 1, distance = Num 1, count = 2\<rparr>,
        \<lparr>left = Some 2, right = Some 3, distance = Num 2, count = 2\<rparr>,
        \<lparr>left = Some 0, right = Some 2, distance = Num (9 / 2), count = 4\<rparr>]"
    by (simp add: run_defs upt_rec eval_nat_numeral)
  have cut: "formClusters
       [\<lparr>left = Some 0, right = Some 1, distance = Num 1, count = 2\<rparr>,
        \<lparr>left = Some 2, right = Some 3, distance = Num 2, count = 2\<rparr>,
        \<lparr>left = Some 0, right = Some 2, distance = Num (9 / 2), count = 4\<rparr>] 2 4 = [0, 1, 0, 2]"
    by code_simp
  have ids: "card (set [0, 1, 0, 2 :: nat]) = 3"
    by code_simp
  show ?thesis
    by (simp only: hierarchicalClustering_def Let_def snd_conv run cut ids)
qed


section \<open>The metrics return numbers\<close>

text \<open>Every metric returns a finite number, so the comparator of the sort in
  \<open>knnClassify\<close> always compares two finite numbers.\<close>

lemma getDistanceFunction_number: "\<exists>x. getDistanceFunction t a b = Num x"
proof -
  have "\<exists>x. defaultDistance a b = Num x"
    by (simp add: defaultDistance_eq)
  moreover have "\<exists>x. jaccardDistance a b = Num x"
    by (simp add: jaccardDistance_eq)
  moreover have "\<exists>x. levenshteinDistance a b = Num x"
    by (simp add: levenshteinDistance_eq)
  moreover have "\<exists>x. cosineDistance a b = Num x"
    by (simp add: cosineDistance_eq Let_def)
  ultimately show ?thesis
    by (simp add: getDistanceFunction_def)
qed


section \<open>The weighted vote\<close>

definition exact_match_refs :: "Tweet list" where
  "exact_match_refs =
     [\<lparr>tweet_id = 1, tweet_text = ''a b'', label = Some ''positive'',
        predictedLabel = None, cleaned = None\<rparr>,
      \<lparr>tweet_id = 2, tweet_text = ''a b c'', label = Some ''negative'',
        predictedLabel = None, cleaned = None\<rparr>]"

lemma exact_match_distances:
  "defaultDistance ''a b'' ''a b'' = Num 0" "defaultDistance ''a b'' ''a b c'' = Num (1 / 3)"
  by code_simp+

lemma weight_above_one:
  fixes d :: real
  assumes "0 < d" "d < 0.9999"
  shows "neighbor_weight (Num d) = Num (1 / (d + 0.0001))" and "1 < 1 / (d + 0.0001)"
proof -
  have pos: "0 < d + 0.0001" and low: "0.0001 < d + 0.0001" and up: "d + 0.0001 < 1"
    using assms by simp_all
  have sum: "num_add (Num d) (Num 0.0001) = Num (d + 0.0001)"
    using pos up by (simp add: overflow_small)
  have "1 / (d + 0.0001) < 1 / 0.0001"
    using low by (intro divide_strict_left_mono) simp_all
  then have "\<bar>1 / (d + 0.0001)\<bar> \<le> 1000000"
    using pos by simp
  then have "num_div (Num 1) (Num (d + 0.0001)) = Num (1 / (d + 0.0001))"
    using pos up by (simp add: overflow_small)
  then show "neighbor_weight (Num d) = Num (1 / (d + 0.0001))"
    using assms(1) sum by (simp add: neighbor_weight_def del: num_add.simps num_div.simps)
  show "1 < 1 / (d + 0.0001)"
    using pos up by (simp add: less_divide_eq)
qed

text \<open>
  C10. The weight of a neighbour is not monotone decreasing in its distance at 0: at
  distance exactly 0 the weight is 1, and at any distance \<open>d\<close> with \<open>0 < d < 0.9999\<close> it is
  \<open>1 / (d + 0.0001)\<close>, above 1. So an exact match can lose the weighted vote: for the
  query \<open>a b\<close>, the references \<open>a b\<close> (positive, at distance 0) and \<open>a b c\<close> (negative, at
  distance 1/3), \<open>k = 2\<close> and the default metric, the weighted vote returns negative.
\<close>

theorem weighted_vote_exact_match_loses:
  "neighbor_weight (Num 0) = Num 1 \<and>
   (\<forall>d. 0 < d \<and> d < 0.9999 \<longrightarrow>
      neighbor_weight (Num d) = Num (1 / (d + 0.0001)) \<and> 1 < 1 / (d + 0.0001)) \<and>
   defaultDistance ''a b'' ''a b'' = Num 0 \<and>
   defaultDistance ''a b'' ''a b c'' = Num (1 / 3) \<and>
   knnClassify ''a b'' exact_match_refs
     \<lparr>knn_k = 2, voteType = ''weighted'', distanceType = ''default''\<rparr> = Some ''negative''"
proof (intro conjI allI impI)
  show "neighbor_weight (Num 0) = Num 1"
    by (simp add: neighbor_weight_def)
next
  fix d :: real assume "0 < d \<and> d < 0.9999"
  then show "neighbor_weight (Num d) = Num (1 / (d + 0.0001))" and "1 < 1 / (d + 0.0001)"
    using weight_above_one [of d] by simp_all
next
  show "defaultDistance ''a b'' ''a b'' = Num 0"
    and "defaultDistance ''a b'' ''a b c'' = Num (1 / 3)"
    by (rule exact_match_distances)+
next
  have fn: "getDistanceFunction ''default'' = defaultDistance"
    by (simp add: getDistanceFunction_def)
  show "knnClassify ''a b'' exact_match_refs
     \<lparr>knn_k = 2, voteType = ''weighted'', distanceType = ''default''\<rparr> = Some ''negative''"
    by (simp add: knnClassify_def fn exact_match_refs_def exact_match_distances
        sort_neighbors_def slice_to_def add_weight_def weight_or_0_def neighbor_weight_def
        overflow_small)
qed

theorem weighted_vote_exact_match_loses_witness:
  "(0 :: real) < 1 / 3 \<and> (1 / 3 :: real) < 0.9999 \<and>
   neighbor_weight (Num (1 / 3)) = Num (1 / (1 / 3 + 0.0001)) \<and>
   (1 :: real) < 1 / (1 / 3 + 0.0001) \<and>
   neighbor_weight (Num 0) = Num 1"
proof -
  have a: "(0 :: real) < 1 / 3 \<and> (1 / 3 :: real) < 0.9999" by simp
  from weighted_vote_exact_match_loses
  have "\<forall>d. 0 < d \<and> d < 0.9999 \<longrightarrow>
      neighbor_weight (Num d) = Num (1 / (d + 0.0001)) \<and> 1 < 1 / (d + 0.0001)"
    and z: "neighbor_weight (Num 0) = Num 1"
    by blast+
  then have "neighbor_weight (Num (1 / 3)) = Num (1 / (1 / 3 + 0.0001)) \<and>
      (1 :: real) < 1 / (1 / 3 + 0.0001)"
    using a by blast
  then show ?thesis using a z by blast
qed


section \<open>The Rand index\<close>

lemma distinct_index_pairs: "distinct (index_pairs n)"
  unfolding index_pairs_def
proof (rule distinct_concat)
  have "x = y" if "x < n" "y < n" "map (Pair x) [x + 1..<n] = map (Pair y) [y + 1..<n]" for x y
  proof -
    have "length (map (Pair x) [x + 1..<n]) = length (map (Pair y) [y + 1..<n])"
      using that(3) by simp
    then show ?thesis using that(1,2) by simp
  qed
  then show "distinct (map (\<lambda>i. map (Pair i) [i + 1..<n]) [0..<n])"
    by (auto simp: distinct_map inj_on_def)
qed (auto simp: distinct_map inj_on_def)

lemma card_index_pairs: "card {(i, j). i < j \<and> j < n} = n choose 2"
proof (induction n)
  case 0
  then show ?case by simp
next
  case (Suc n)
  have split: "{(i, j). i < j \<and> j < Suc n} = {(i, j). i < j \<and> j < n} \<union> (\<lambda>i. (i, n)) ` {..<n}"
    by (auto simp: less_Suc_eq)
  have disj: "{(i, j). i < j \<and> j < n} \<inter> (\<lambda>i. (i, n)) ` {..<n} = {}"
    by auto
  have fin: "finite {(i, j). i < j \<and> j < n}"
    by (rule finite_subset [of _ "{..<n} \<times> {..<n}"]) auto
  have "card ((\<lambda>i. (i, n)) ` {..<n}) = n"
    by (simp add: card_image inj_on_def)
  then have "card {(i, j). i < j \<and> j < Suc n} = (n choose 2) + n"
    unfolding split using card_Un_disjoint [OF fin _ disj] Suc.IH by simp
  also have "\<dots> = Suc n choose 2"
    by (simp add: numeral_2_eq_2)
  finally show ?case .
qed

lemma length_index_pairs: "length (index_pairs n) = n choose 2"
  using distinct_card [OF distinct_index_pairs, of n] card_index_pairs [of n]
  by (simp add: set_index_pairs)

text \<open>The pairs on which the two partitions agree, in the words of the specification:
  co-grouped in both, or separated in both.\<close>

definition agreeing_pairs :: "nat list \<Rightarrow> string list \<Rightarrow> (nat \<times> nat) set" where
  "agreeing_pairs c1 c2 =
     {(i, j). i < j \<and> j < length c1 \<and> ((c1 ! i = c1 ! j) = (c2 ! i = c2 ! j))}"

lemma fold_rand_step:
  "fold (rand_step c1 c2) ps (a, b) =
     (a + length (filter (\<lambda>(i, j). elem_at c1 i = elem_at c1 j \<and> elem_at c2 i = elem_at c2 j) ps),
      b + length (filter (\<lambda>(i, j). elem_at c1 i \<noteq> elem_at c1 j \<and> elem_at c2 i \<noteq> elem_at c2 j) ps))"
  by (induction ps arbitrary: a b) (auto simp: rand_step_def Let_def)

lemma rand_counts:
  assumes len: "length c1 = length c2"
  shows "fst (fold (rand_step c1 c2) (index_pairs (length c1)) (0, 0))
         + snd (fold (rand_step c1 c2) (index_pairs (length c1)) (0, 0))
         = card (agreeing_pairs c1 c2)"
proof -
  let ?ps = "index_pairs (length c1)"
  let ?same = "\<lambda>(i, j). elem_at c1 i = elem_at c1 j \<and> elem_at c2 i = elem_at c2 j"
  let ?diff = "\<lambda>(i, j). elem_at c1 i \<noteq> elem_at c1 j \<and> elem_at c2 i \<noteq> elem_at c2 j"
  have d: "distinct ?ps" by (rule distinct_index_pairs)
  have "card (set (filter ?same ?ps)) = length (filter ?same ?ps)"
    and "card (set (filter ?diff ?ps)) = length (filter ?diff ?ps)"
    by (rule distinct_card, rule distinct_filter, rule d)+
  then have "length (filter ?same ?ps) + length (filter ?diff ?ps)
        = card (set (filter ?same ?ps)) + card (set (filter ?diff ?ps))"
    by (simp only:)
  also have "\<dots> = card (set (filter ?same ?ps) \<union> set (filter ?diff ?ps))"
    by (rule card_Un_disjoint [symmetric]) auto
  also have "set (filter ?same ?ps) \<union> set (filter ?diff ?ps) = agreeing_pairs c1 c2"
    using len by (auto simp: set_index_pairs agreeing_pairs_def elem_at_def)
  finally show ?thesis by (simp add: fold_rand_step)
qed

lemma agreeing_pairs_le: "card (agreeing_pairs c1 c2) \<le> length c1 choose 2"
proof -
  have "agreeing_pairs c1 c2 \<subseteq> set (index_pairs (length c1))"
    by (auto simp: agreeing_pairs_def set_index_pairs)
  then have "card (agreeing_pairs c1 c2) \<le> card (set (index_pairs (length c1)))"
    by (intro card_mono) simp_all
  then show ?thesis
    using distinct_card [OF distinct_index_pairs, of "length c1"] length_index_pairs [of "length c1"]
    by simp
qed

lemma randIndex_agreeing_pairs:
  assumes len: "length c1 = length c2" and n: "2 \<le> length c1"
  shows "calculateRandIndex c1 c2
           = Num (real (card (agreeing_pairs c1 c2)) / real (length c1 choose 2))"
    and "0 \<le> real (card (agreeing_pairs c1 c2)) / real (length c1 choose 2)"
    and "real (card (agreeing_pairs c1 c2)) / real (length c1 choose 2) \<le> 1"
proof -
  let ?n = "length c1"
  have even: "2 * (?n choose 2) = ?n * (?n - 1)"
    using times_binomial_minus1_eq [of 2 ?n] by simp
  have pos: "0 < ?n choose 2" using n by (simp add: zero_less_binomial_iff)
  have total: "real (?n * (?n - 1)) / 2 = real (?n choose 2)"
    using even by (metis nonzero_mult_div_cancel_left of_nat_mult of_nat_numeral zero_neq_numeral)
  obtain a b where ab: "fold (rand_step c1 c2) (index_pairs ?n) (0, 0) = (a, b)"
    by (cases "fold (rand_step c1 c2) (index_pairs ?n) (0, 0)")
  have sum: "a + b = card (agreeing_pairs c1 c2)"
    using rand_counts [OF len] ab by simp
  have tn: "num_div (of_count (?n * (?n - 1))) (Num 2) = Num (real (?n choose 2))"
    unfolding of_count_def using total by simp
  have "calculateRandIndex c1 c2 = num_div (of_count (a + b)) (Num (real (?n choose 2)))"
    unfolding calculateRandIndex_def Let_def ab tn by simp
  also have "\<dots> = Num (real (a + b) / real (?n choose 2))"
  proof -
    have "1 \<le> ?n choose 2" using pos by linarith
    then have "real 1 \<le> real (?n choose 2)" by (rule of_nat_mono)
    then have "1 \<le> \<bar>real (?n choose 2)\<bar>" unfolding of_nat_1 by linarith
    then show ?thesis unfolding of_count_def by (rule num_div_ge_1)
  qed
  finally show "calculateRandIndex c1 c2
           = Num (real (card (agreeing_pairs c1 c2)) / real (?n choose 2))"
    by (simp only: sum)
  show "0 \<le> real (card (agreeing_pairs c1 c2)) / real (?n choose 2)" by simp
  show "real (card (agreeing_pairs c1 c2)) / real (?n choose 2) \<le> 1"
    using agreeing_pairs_le [of c1 c2] pos by simp
qed

lemma index_pairs_small: "n < 2 \<Longrightarrow> index_pairs n = []"
  by (cases n) (auto simp: index_pairs_def)

lemma randIndex_undefined:
  assumes "length c1 < 2"
  shows "calculateRandIndex c1 c2 = NaN"
proof -
  have "length c1 * (length c1 - 1) = 0" using assms by (cases "length c1") auto
  then show ?thesis
    using index_pairs_small [OF assms]
    by (simp add: calculateRandIndex_def Let_def of_count_def inf_of_sign_def)
qed

text \<open>
  C7, as amended. \<open>calculateRandIndex\<close>, applied to two assignment sequences of the same
  length \<open>n\<close>, returns for \<open>n \<ge> 2\<close> the number of unordered pairs of documents on which
  the two partitions agree (together in both, or apart in both) divided by \<open>C(n,2)\<close>, a
  value between 0 and 1; for \<open>n < 2\<close> it returns \<open>NaN\<close>, the quotient \<open>0 / 0\<close>.
\<close>

theorem randIndex_is_agreement_ratio:
  assumes "length c1 = length c2"
  shows "(2 \<le> length c1 \<longrightarrow>
            calculateRandIndex c1 c2
              = Num (real (card (agreeing_pairs c1 c2)) / real (length c1 choose 2)) \<and>
            0 \<le> real (card (agreeing_pairs c1 c2)) / real (length c1 choose 2) \<and>
            real (card (agreeing_pairs c1 c2)) / real (length c1 choose 2) \<le> 1) \<and>
         (length c1 < 2 \<longrightarrow> calculateRandIndex c1 c2 = NaN)"
proof (intro conjI impI)
  assume n: "2 \<le> length c1"
  show "calculateRandIndex c1 c2
          = Num (real (card (agreeing_pairs c1 c2)) / real (length c1 choose 2))"
    by (rule randIndex_agreeing_pairs(1) [OF assms n])
  show "0 \<le> real (card (agreeing_pairs c1 c2)) / real (length c1 choose 2)"
    by (rule randIndex_agreeing_pairs(2) [OF assms n])
  show "real (card (agreeing_pairs c1 c2)) / real (length c1 choose 2) \<le> 1"
    by (rule randIndex_agreeing_pairs(3) [OF assms n])
next
  assume "length c1 < 2"
  then show "calculateRandIndex c1 c2 = NaN"
    by (rule randIndex_undefined)
qed

theorem randIndex_is_agreement_ratio_witness:
  "length [0, 1, 0 :: nat] = length [''positive'', ''positive'', ''negative''] \<and>
   calculateRandIndex [0, 1, 0] [''positive'', ''positive'', ''negative'']
     = Num (real (card (agreeing_pairs [0, 1, 0] [''positive'', ''positive'', ''negative''])) / 3) \<and>
   calculateRandIndex [0] [''positive''] = NaN"
proof -
  let ?c1 = "[0, 1, 0 :: nat]" and ?c2 = "[''positive'', ''positive'', ''negative'']"
  have l: "length ?c1 = length ?c2" by simp
  have n: "2 \<le> length ?c1" by simp
  have c: "length ?c1 choose 2 = 3" by (simp add: choose_two)
  from randIndex_is_agreement_ratio [OF l] n
  have "calculateRandIndex ?c1 ?c2
          = Num (real (card (agreeing_pairs ?c1 ?c2)) / real (length ?c1 choose 2))"
    by blast
  then have e: "calculateRandIndex ?c1 ?c2 = Num (real (card (agreeing_pairs ?c1 ?c2)) / 3)"
    by (simp only: c of_nat_numeral)
  have l1: "length [0 :: nat] = length [''positive'']" by simp
  have n1: "length [0 :: nat] < 2" by simp
  from randIndex_is_agreement_ratio [OF l1] n1
  have u: "calculateRandIndex [0] [''positive''] = NaN" by blast
  show ?thesis using l e u by blast
qed

text \<open>
  C7 as stated fails for \<open>n < 2\<close>: with one document (and with none) there is no pair,
  \<open>total\<close> is 0, and the function returns \<open>0 / 0\<close>, which is \<open>NaN\<close>, where the claim says 0.
\<close>

theorem randIndex_of_one_document_counterexample:
  "calculateRandIndex [0] [''positive''] = NaN \<and> calculateRandIndex [] [] = NaN"
proof
  show "calculateRandIndex [0] [''positive''] = NaN" by code_simp
  show "calculateRandIndex [] [] = NaN" by code_simp
qed

end
